theory Spec2Isabelle
  imports Complex_Main "HOL-Library.Sublist"
begin

text \<open>
  A model of FRion's \<^verbatim>\<open>correct.py\<close>: the correction of Stokes Q and U cubes for
  ionospheric Faraday rotation. The numpy and astropy operations that the module calls
  are modelled by what they compute on arrays, headers and files.
\<close>

section \<open>Errors\<close>

text \<open>
  Every exception the Python code can raise is a value. \<open>Exception\<close> carries the
  message of the two explicit \<^verbatim>\<open>raise Exception(...)\<close> statements of
  \<^verbatim>\<open>apply_correction_to_files\<close>; the other constructors are the built-in
  exception classes raised by the interpreter, numpy and astropy.
\<close>

datatype error =
    KeyError | TypeError | AttributeError | IndexError | AxisError | ValueError | OSError
  | Exception string

section \<open>N-dimensional arrays\<close>

text \<open>
  A numpy array is its shape together with its elements in C (row-major) order.
  An array is well formed when it holds exactly as many elements as its shape says.
\<close>

record 'a ndarray =
  shape :: "nat list"
  data :: "'a list"

definition ndim :: "'a ndarray \<Rightarrow> nat" where
  "ndim a = length (shape a)"

definition size_of :: "'a ndarray \<Rightarrow> nat" where
  "size_of a = prod_list (shape a)"

definition well_formed :: "'a ndarray \<Rightarrow> bool" where
  "well_formed a = (length (data a) = prod_list (shape a))"

text \<open>All multi-indices of a shape, in row-major order, and the flat position of one.\<close>

definition indices :: "nat list \<Rightarrow> nat list list" where
  "indices s = product_lists (map (\<lambda>n. [0..<n]) s)"

fun offset :: "nat list \<Rightarrow> nat list \<Rightarrow> nat" where
  "offset (n # ns) (i # is) = i * prod_list ns + offset ns is"
| "offset _ _ = 0"

definition valid_index :: "nat list \<Rightarrow> nat list \<Rightarrow> bool" where
  "valid_index s idx = list_all2 (\<lambda>i n. i < n) idx s"

definition get :: "'a ndarray \<Rightarrow> nat list \<Rightarrow> 'a" where
  "get a idx = data a ! offset (shape a) idx"

definition map_nd :: "('a \<Rightarrow> 'b) \<Rightarrow> 'a ndarray \<Rightarrow> 'b ndarray" where
  "map_nd f a = \<lparr> shape = shape a, data = map f (data a) \<rparr>"

subsection \<open>Axis permutation: \<^verbatim>\<open>numpy.transpose\<close> and \<^verbatim>\<open>numpy.moveaxis\<close>\<close>

text \<open>
  \<^verbatim>\<open>a.transpose(axes)\<close>: axis \<open>axes ! k\<close> of \<open>a\<close> becomes axis \<open>k\<close> of the
  result, so the element at index \<open>j\<close> of the result is the element of \<open>a\<close> at the index
  \<open>i\<close> with \<open>i ! (axes ! k) = j ! k\<close>. \<open>inverse_order axes ! k\<close> is the position of
  \<open>k\<close> in \<open>axes\<close>.
\<close>

definition inverse_order :: "nat list \<Rightarrow> nat list" where
  "inverse_order axes = map (\<lambda>k. length (takeWhile (\<lambda>j. j \<noteq> k) axes)) [0..<length axes]"

text \<open>\<open>axes\<close> is a permutation of the axes \<open>0..<n\<close>.\<close>

definition is_perm :: "nat list \<Rightarrow> nat \<Rightarrow> bool" where
  "is_perm axes n = (distinct axes \<and> set axes = {0..<n})"

definition transpose_nd :: "'a ndarray \<Rightarrow> nat list \<Rightarrow> 'a ndarray" where
  "transpose_nd a axes =
     (let new_shape = map (\<lambda>k. shape a ! k) axes;
          back = inverse_order axes
      in \<lparr> shape = new_shape,
           data = map (\<lambda>j. get a (map (\<lambda>p. j ! p) back)) (indices new_shape) \<rparr>)"

text \<open>
  \<^verbatim>\<open>normalize_axis_index\<close>: an axis in \<open>[-ndim, ndim)\<close> is accepted, a negative
  one counts from the end, anything else raises \<^verbatim>\<open>AxisError\<close>.
\<close>

definition normalize_axis_index :: "int \<Rightarrow> nat \<Rightarrow> error + nat" where
  "normalize_axis_index axis nd =
     (if - int nd \<le> axis \<and> axis < int nd
      then Inr (nat (if axis < 0 then axis + int nd else axis))
      else Inl AxisError)"

text \<open>Python's \<^verbatim>\<open>list.insert(i, x)\<close> for \<open>0 \<le> i\<close>.\<close>

definition list_insert :: "'a list \<Rightarrow> nat \<Rightarrow> 'a \<Rightarrow> 'a list" where
  "list_insert xs i x = take i xs @ [x] @ drop i xs"

text \<open>
  \<^verbatim>\<open>moveaxis(a, source, destination)\<close> with one source and one destination:
  \<^verbatim>\<open>order = [n for n in range(a.ndim) if n not in source]\<close>, then
  \<^verbatim>\<open>order.insert(dest, src)\<close>, then \<^verbatim>\<open>a.transpose(order)\<close>.
\<close>

definition moveaxis_order :: "nat \<Rightarrow> nat \<Rightarrow> nat \<Rightarrow> nat list" where
  "moveaxis_order n src dst = list_insert (filter (\<lambda>k. k \<noteq> src) [0..<n]) dst src"

definition moveaxis :: "'a ndarray \<Rightarrow> int \<Rightarrow> int \<Rightarrow> error + 'a ndarray" where
  "moveaxis a source destination =
     (case normalize_axis_index source (ndim a) of
        Inl e \<Rightarrow> Inl e
      | Inr src \<Rightarrow>
          (case normalize_axis_index destination (ndim a) of
             Inl e \<Rightarrow> Inl e
           | Inr dst \<Rightarrow> Inr (transpose_nd a (moveaxis_order (ndim a) src dst))))"

subsection \<open>Broadcasting, reshaping, squeezing\<close>

text \<open>
  numpy aligns two shapes at their last axis, pads the shorter one with leading ones and
  accepts a pair of lengths when they are equal or one of them is 1; otherwise the
  operation raises \<^verbatim>\<open>ValueError\<close>. An operand is read at the result index with its
  padded axes dropped and its length-1 axes pinned to 0.
\<close>

definition broadcast_shapes :: "nat list \<Rightarrow> nat list \<Rightarrow> error + nat list" where
  "broadcast_shapes s1 s2 =
     (let n = max (length s1) (length s2);
          p1 = replicate (n - length s1) 1 @ s1;
          p2 = replicate (n - length s2) 1 @ s2
      in if list_all2 (\<lambda>a b. a = b \<or> a = 1 \<or> b = 1) p1 p2
         then Inr (map2 (\<lambda>a b. if a = 1 then b else a) p1 p2)
         else Inl ValueError)"

definition broadcast_index :: "nat list \<Rightarrow> nat list \<Rightarrow> nat list" where
  "broadcast_index s j =
     map2 (\<lambda>n i. if n = 1 then 0 else i) s (drop (length j - length s) j)"

definition broadcast2 ::
  "('a \<Rightarrow> 'b \<Rightarrow> 'c) \<Rightarrow> 'a ndarray \<Rightarrow> 'b ndarray \<Rightarrow> error + 'c ndarray" where
  "broadcast2 f a b =
     (case broadcast_shapes (shape a) (shape b) of
        Inl e \<Rightarrow> Inl e
      | Inr s \<Rightarrow>
          Inr \<lparr> shape = s,
                data = map (\<lambda>j. f (get a (broadcast_index (shape a) j))
                                   (get b (broadcast_index (shape b) j)))
                           (indices s) \<rparr>)"

text \<open>\<^verbatim>\<open>numpy.reshape\<close> keeps the elements in C order and needs the same element count.\<close>

definition reshape :: "'a ndarray \<Rightarrow> nat list \<Rightarrow> error + 'a ndarray" where
  "reshape a new_shape =
     (if prod_list new_shape = size_of a
      then Inr \<lparr> shape = new_shape, data = data a \<rparr>
      else Inl ValueError)"

text \<open>\<^verbatim>\<open>numpy.squeeze\<close> drops every axis of length 1.\<close>

definition squeeze :: "'a ndarray \<Rightarrow> 'a ndarray" where
  "squeeze a = \<lparr> shape = filter (\<lambda>n. n \<noteq> 1) (shape a), data = data a \<rparr>"

text \<open>
  Iterating over an array yields its sub-arrays along axis 0; a 0-d array cannot be
  iterated (\<^verbatim>\<open>TypeError\<close>).
\<close>

definition iterate_axis0 :: "'a ndarray \<Rightarrow> error + 'a ndarray list" where
  "iterate_axis0 a =
     (case shape a of
        [] \<Rightarrow> Inl TypeError
      | n # rest \<Rightarrow>
          Inr (map (\<lambda>k. \<lparr> shape = rest,
                            data = take (prod_list rest) (drop (k * prod_list rest) (data a)) \<rparr>)
                   [0..<n]))"

section \<open>FITS headers\<close>

text \<open>
  A header is its list of cards (keyword, value) in file order. Looking a keyword up
  returns the value of its first card and raises \<^verbatim>\<open>KeyError\<close> when there is none.
\<close>

datatype hvalue = HInt int | HStr string | HBool bool | HFloat real

type_synonym header = "(string \<times> hvalue) list"

definition header_get :: "header \<Rightarrow> string \<Rightarrow> error + hvalue" where
  "header_get h key = (case map_of h key of None \<Rightarrow> Inl KeyError | Some v \<Rightarrow> Inr v)"

text \<open>
  The value of \<^verbatim>\<open>header['NAXIS']\<close> where Python needs an integer
  (\<^verbatim>\<open>range(1, header['NAXIS']+1)\<close>): a \<^verbatim>\<open>bool\<close> is an \<^verbatim>\<open>int\<close>,
  a string or a float raises \<^verbatim>\<open>TypeError\<close>.
\<close>

fun int_of_hvalue :: "hvalue \<Rightarrow> error + int" where
  "int_of_hvalue (HInt n) = Inr n"
| "int_of_hvalue (HBool b) = Inr (if b then 1 else 0)"
| "int_of_hvalue (HStr s) = Inl TypeError"
| "int_of_hvalue (HFloat x) = Inl TypeError"

text \<open>\<^verbatim>\<open>str(i)\<close> on an integer, and \<^verbatim>\<open>s.upper()\<close> on ASCII text.\<close>

fun str_nat :: "nat \<Rightarrow> string" where
  "str_nat n =
     (if n < 10 then [char_of (48 + n)]
      else str_nat (n div 10) @ [char_of (48 + n mod 10)])"

declare str_nat.simps [simp del]

definition str_int :: "int \<Rightarrow> string" where
  "str_int i = (if i < 0 then CHR ''-'' # str_nat (nat (- i)) else str_nat (nat i))"

definition upper_char :: "char \<Rightarrow> char" where
  "upper_char c =
     (let n = (of_char c :: nat) in if 97 \<le> n \<and> n \<le> 122 then char_of (n - 32) else c)"

definition upper :: "string \<Rightarrow> string" where
  "upper s = map upper_char s"

text \<open>
  The body of the \<^verbatim>\<open>try\<close> in \<^verbatim>\<open>find_freq_axis\<close>:
  \<^verbatim>\<open>'FREQ' in header['CTYPE'+str(i)].upper()\<close>. A missing keyword raises
  \<^verbatim>\<open>KeyError\<close>, a value that is not a string has no \<^verbatim>\<open>upper\<close>
  (\<^verbatim>\<open>AttributeError\<close>).
\<close>

definition ctype_has_freq :: "header \<Rightarrow> int \<Rightarrow> error + bool" where
  "ctype_has_freq header i =
     (case header_get header (''CTYPE'' @ str_int i) of
        Inl e \<Rightarrow> Inl e
      | Inr (HStr s) \<Rightarrow> Inr (sublist ''FREQ'' (upper s))
      | Inr _ \<Rightarrow> Inl AttributeError)"

text \<open>One turn of the loop: the bare \<^verbatim>\<open>except: pass\<close> swallows every error.\<close>

definition freq_axis_step :: "header \<Rightarrow> int \<Rightarrow> int \<Rightarrow> int" where
  "freq_axis_step header i freq_axis =
     (case ctype_has_freq header i of
        Inl e \<Rightarrow> freq_axis
      | Inr found \<Rightarrow> if found then i else freq_axis)"

definition find_freq_axis :: "header \<Rightarrow> error + int" where
  "find_freq_axis header =
     (case header_get header ''NAXIS'' of
        Inl e \<Rightarrow> Inl e
      | Inr v \<Rightarrow>
          (case int_of_hvalue v of
             Inl e \<Rightarrow> Inl e
           | Inr naxis \<Rightarrow> Inr (fold (freq_axis_step header) [1..naxis] 0)))"

text \<open>
  The specification's condition on one axis, stated on the header alone: the axis has a
  type label, the label is a string, and its upper-cased text contains \<open>FREQ\<close>.
\<close>

definition axis_label_matches :: "header \<Rightarrow> int \<Rightarrow> bool" where
  "axis_label_matches header i =
     (case map_of header (''CTYPE'' @ str_int i) of
        Some (HStr s) \<Rightarrow> sublist ''FREQ'' (upper s)
      | _ \<Rightarrow> False)"

text \<open>
  \<^verbatim>\<open>Header.add_history\<close>: the new card goes after the last \<^verbatim>\<open>HISTORY\<close> card,
  or to the end of a header that has none.
\<close>

definition add_history :: "header \<Rightarrow> string \<Rightarrow> header" where
  "add_history h v =
     (let card = (''HISTORY'', HStr v);
          r = rev h;
          after = takeWhile (\<lambda>c. fst c \<noteq> ''HISTORY'') r;
          upto_last = dropWhile (\<lambda>c. fst c \<noteq> ''HISTORY'') r
      in if upto_last = [] then h @ [card] else rev upto_last @ [card] @ rev after)"

definition history_note :: string where
  "history_note = ''Corrected for ionospheric Faraday rotation using FRion.''"

section \<open>Axis normalization\<close>

text \<open>
  Lines 123-125 of \<^verbatim>\<open>readData\<close>, for one cube: FITS axis \<open>freq_axis\<close> (1-based) is
  numpy axis \<open>N_dim - freq_axis\<close>; unless it is not found (0) or already first
  (\<open>N_dim\<close>), it is moved to position 0.
\<close>

definition to_canonical :: "'a ndarray \<Rightarrow> int \<Rightarrow> int \<Rightarrow> error + 'a ndarray" where
  "to_canonical Qdata freq_axis N_dim =
     (if freq_axis \<noteq> 0 \<and> freq_axis \<noteq> N_dim
      then moveaxis Qdata (N_dim - freq_axis) 0
      else Inr Qdata)"

text \<open>Lines 150-152 of \<^verbatim>\<open>write_corrected_cubes\<close>, for one cube.\<close>

definition to_native :: "'a ndarray \<Rightarrow> int \<Rightarrow> int \<Rightarrow> error + 'a ndarray" where
  "to_native Qcorr freq_axis N_dim =
     (if freq_axis \<noteq> 0
      then moveaxis Qcorr 0 (N_dim - freq_axis)
      else Inr Qcorr)"

section \<open>The correction\<close>

text \<open>
  The scalar arithmetic of numpy (float64 and complex128) is a parameter of the model:
  the conversion of a real to a complex number, the constant \<^verbatim>\<open>1.j\<close>, complex
  addition, multiplication and division, and the real and imaginary part.
  \<open>exact_arith\<close> is the arithmetic of the real and complex numbers, with which the
  floating-point one agrees wherever no rounding, overflow or division by zero occurs.
\<close>

record ('r, 'c) arith =
  cplx :: "'r \<Rightarrow> 'c"
  imag_unit :: "'c"
  cadd :: "'c \<Rightarrow> 'c \<Rightarrow> 'c"
  cmul :: "'c \<Rightarrow> 'c \<Rightarrow> 'c"
  cdiv :: "'c \<Rightarrow> 'c \<Rightarrow> 'c"
  creal :: "'c \<Rightarrow> 'r"
  cimag :: "'c \<Rightarrow> 'r"

definition exact_arith :: "(real, complex) arith" where
  "exact_arith =
     \<lparr> cplx = complex_of_real, imag_unit = \<i>, cadd = (+), cmul = (*), cdiv = (/),
       creal = Re, cimag = Im \<rparr>"

text \<open>\<^verbatim>\<open>Q + 1.j*U\<close>: the scalar product first, then the broadcast sum.\<close>

definition complex_polarization ::
  "('r, 'c) arith \<Rightarrow> 'r ndarray \<Rightarrow> 'r ndarray \<Rightarrow> error + 'c ndarray" where
  "complex_polarization ar Qdata Udata =
     broadcast2 (cadd ar) (map_nd (cplx ar) Qdata)
                (map_nd (\<lambda>u. cmul ar (imag_unit ar) (cplx ar u)) Udata)"

text \<open>
  \<^verbatim>\<open>arrshape=np.array(Pdata.shape); arrshape[:]=1; arrshape[0]=theta.size\<close>.
  On a 0-d cube the last assignment raises \<^verbatim>\<open>IndexError\<close>.
\<close>

definition correction_shape :: "nat list \<Rightarrow> nat \<Rightarrow> error + nat list" where
  "correction_shape pshape theta_size =
     (let arrshape = replicate (length pshape) 1
      in if arrshape = [] then Inl IndexError else Inr (arrshape[0 := theta_size]))"

definition correct_cubes ::
  "('r, 'c) arith \<Rightarrow> 'r ndarray \<Rightarrow> 'r ndarray \<Rightarrow> 'c ndarray
     \<Rightarrow> error + ('r ndarray \<times> 'r ndarray)" where
  "correct_cubes ar Qdata Udata theta =
     (case complex_polarization ar Qdata Udata of
        Inl e \<Rightarrow> Inl e
      | Inr Pdata \<Rightarrow>
          (case correction_shape (shape Pdata) (size_of theta) of
             Inl e \<Rightarrow> Inl e
           | Inr arrshape \<Rightarrow>
               (case reshape theta arrshape of
                  Inl e \<Rightarrow> Inl e
                | Inr theta_b \<Rightarrow>
                    (case broadcast2 (cdiv ar) Pdata theta_b of
                       Inl e \<Rightarrow> Inl e
                     | Inr Pcorr \<Rightarrow>
                         Inr (map_nd (creal ar) Pcorr, map_nd (cimag ar) Pcorr)))))"

section \<open>Files\<close>

text \<open>
  The state of a run: the header objects alive in memory (a header is referred to by its
  position in \<open>headers\<close>, so that copying and mutating one is visible), and the file
  system. A FITS file holds a header and an array, or a header alone (a primary HDU
  without data). A text file is the table that \<^verbatim>\<open>genfromtxt\<close> tokenizes: one list
  of fields for each line, a field being the float it parses to, or \<open>None\<close> when it
  is not a number. A text file without any line has no bytes.
\<close>

datatype 'r stored_file =
    FitsFile header "'r ndarray"
  | FitsHeaderOnly header
  | TextFile "'r option list list"

fun zero_size :: "'r stored_file \<Rightarrow> bool" where
  "zero_size (TextFile []) = True"
| "zero_size _ = False"

record 'r world =
  headers :: "header list"
  files :: "string \<Rightarrow> 'r stored_file option"

definition new_header :: "header \<Rightarrow> 'r world \<Rightarrow> nat \<times> 'r world" where
  "new_header h w = (length (headers w), w\<lparr> headers := headers w @ [h] \<rparr>)"


text \<open>
  \<^verbatim>\<open>pf.writeto(name, data, header, overwrite)\<close>. The HDU is built first: an array
  without any axis is refused with \<^verbatim>\<open>TypeError\<close>, before the path is looked at.
  Then the path: a file that exists and has bytes is replaced only when \<open>overwrite\<close>
  is set, and raises \<^verbatim>\<open>OSError\<close> otherwise; a file without bytes is written over
  like a free path. The file records the header passed to the writer; the structural
  cards that the writer derives from the array are not recorded.
\<close>

definition occupied :: "'r world \<Rightarrow> string \<Rightarrow> bool" where
  "occupied w name = (case files w name of None \<Rightarrow> False | Some f \<Rightarrow> \<not> zero_size f)"

definition pf_writeto ::
  "string \<Rightarrow> 'r ndarray \<Rightarrow> header \<Rightarrow> bool \<Rightarrow> 'r world \<Rightarrow> (error + unit) \<times> 'r world" where
  "pf_writeto name d h overwrite w =
     (if shape d = [] then (Inl TypeError, w)
      else if occupied w name \<and> \<not> overwrite then (Inl OSError, w)
      else (Inr (), w\<lparr> files := (files w)(name \<mapsto> FitsFile h d) \<rparr>))"

text \<open>
  \<^verbatim>\<open>np.genfromtxt(filename, unpack=True)\<close>: a missing file raises \<^verbatim>\<open>OSError\<close>;
  lines without fields are skipped; an input without any row gives an empty 1-d array;
  rows that differ from the first in their number of fields raise \<^verbatim>\<open>ValueError\<close>;
  otherwise every field is converted, a field that is not a number becoming \<open>nan\<close>
  (the conversion is loose: it does not raise), and the table is an array of shape
  (rows, columns), which is squeezed and transposed. A file that is not text fails to
  decode or to tokenize (\<^verbatim>\<open>ValueError\<close>). \<open>nan\<close> is numpy's float of that name, a
  parameter like the rest of the arithmetic.
\<close>

definition to_float :: "'r \<Rightarrow> 'r option \<Rightarrow> 'r" where
  "to_float nan field = (case field of None \<Rightarrow> nan | Some x \<Rightarrow> x)"

definition genfromtxt_unpack :: "'r \<Rightarrow> 'r world \<Rightarrow> string \<Rightarrow> error + 'r ndarray" where
  "genfromtxt_unpack nan w filename =
     (case files w filename of
        None \<Rightarrow> Inl OSError
      | Some (FitsFile h d) \<Rightarrow> Inl ValueError
      | Some (FitsHeaderOnly h) \<Rightarrow> Inl ValueError
      | Some (TextFile lines) \<Rightarrow>
          (let rows = filter (\<lambda>r. r \<noteq> []) lines
           in if rows = [] then Inr \<lparr> shape = [0], data = [] \<rparr>
              else if \<exists>r \<in> set rows. length r \<noteq> length (hd rows) then Inl ValueError
              else
                (let output = squeeze \<lparr> shape = [length rows, length (hd rows)],
                                          data = map (to_float nan) (concat rows) \<rparr>
                 in Inr (transpose_nd output (rev [0..<ndim output])))))"

text \<open>
  \<^verbatim>\<open>(frequencies,real,imag)=...\<close>: the array is iterated along axis 0 and must
  yield exactly three items.
\<close>

definition unpack3 :: "'a list \<Rightarrow> error + ('a \<times> 'a \<times> 'a)" where
  "unpack3 xs = (case xs of [a, b, c] \<Rightarrow> Inr (a, b, c) | _ \<Rightarrow> Inl ValueError)"

definition read_prediction ::
  "('r, 'c) arith \<Rightarrow> 'r \<Rightarrow> 'r world \<Rightarrow> string \<Rightarrow> error + ('r ndarray \<times> 'c ndarray)" where
  "read_prediction ar nan w filename =
     (case genfromtxt_unpack nan w filename of
        Inl e \<Rightarrow> Inl e
      | Inr table \<Rightarrow>
          (case iterate_axis0 table of
             Inl e \<Rightarrow> Inl e
           | Inr items \<Rightarrow>
               (case unpack3 items of
                  Inl e \<Rightarrow> Inl e
                | Inr (frequencies, real_part, imag_part) \<Rightarrow>
                    (case complex_polarization ar real_part imag_part of
                       Inl e \<Rightarrow> Inl e
                     | Inr theta \<Rightarrow> Inr (frequencies, theta)))))"



text \<open>
  \<^verbatim>\<open>write_corrected_cubes\<close>: \<^verbatim>\<open>header.copy()\<close> creates a new header object,
  \<^verbatim>\<open>add_history\<close> mutates that object, and the two files are written one after the
  other. An exception leaves the state as it is at that point.
\<close>

definition write_corrected_cubes ::
  "string \<Rightarrow> string \<Rightarrow> 'r ndarray \<Rightarrow> 'r ndarray \<Rightarrow> nat \<Rightarrow> bool \<Rightarrow> 'r world
     \<Rightarrow> (error + unit) \<times> 'r world" where
  "write_corrected_cubes Qoutputname Uoutputname Qcorr Ucorr header overwrite w =
     (let (output_header, w1) = new_header (headers w ! header) w;
          w2 = w1\<lparr> headers := (headers w1)
                  [output_header := add_history (headers w1 ! output_header) history_note] \<rparr>
      in case header_get (headers w2 ! output_header) ''NAXIS'' of
           Inl e \<Rightarrow> (Inl e, w2)
         | Inr v \<Rightarrow>
             (case find_freq_axis (headers w2 ! output_header) of
                Inl e \<Rightarrow> (Inl e, w2)
              | Inr freq_axis \<Rightarrow>
                  (case int_of_hvalue v of
                     Inl e \<Rightarrow> (Inl e, w2)
                   | Inr N_dim \<Rightarrow>
                       (case to_native Qcorr freq_axis N_dim of
                          Inl e \<Rightarrow> (Inl e, w2)
                        | Inr Qcorr' \<Rightarrow>
                            (case to_native Ucorr freq_axis N_dim of
                               Inl e \<Rightarrow> (Inl e, w2)
                             | Inr Ucorr' \<Rightarrow>
                                 (case pf_writeto Qoutputname Qcorr'
                                         (headers w2 ! output_header) overwrite w2 of
                                    (Inl e, w3) \<Rightarrow> (Inl e, w3)
                                  | (Inr u, w3) \<Rightarrow>
                                      pf_writeto Uoutputname Ucorr'
                                        (headers w3 ! output_header) overwrite w3))))))"





section \<open>Auxiliary notions for the statements\<close>

text \<open>
  Three parts of \<^verbatim>\<open>write_corrected_cubes\<close>, named so that statements can refer to
  them: the annotated copy of the caller's header, the state once that copy exists, and
  the restoration of the native axis order of both cubes (lines 148-152), which comes
  before the first write.
\<close>

definition annotated :: "'r world \<Rightarrow> nat \<Rightarrow> header" where
  "annotated w header = add_history (headers w ! header) history_note"

definition staged :: "'r world \<Rightarrow> nat \<Rightarrow> 'r world" where
  "staged w header = w\<lparr> headers := headers w @ [annotated w header] \<rparr>"

definition restored ::
  "header \<Rightarrow> 'r ndarray \<Rightarrow> 'r ndarray \<Rightarrow> error + ('r ndarray \<times> 'r ndarray)" where
  "restored h Qcorr Ucorr =
     (case header_get h ''NAXIS'' of
        Inl e \<Rightarrow> Inl e
      | Inr v \<Rightarrow>
          (case find_freq_axis h of
             Inl e \<Rightarrow> Inl e
           | Inr freq_axis \<Rightarrow>
               (case int_of_hvalue v of
                  Inl e \<Rightarrow> Inl e
                | Inr N_dim \<Rightarrow>
                    (case to_native Qcorr freq_axis N_dim of
                       Inl e \<Rightarrow> Inl e
                     | Inr Qcorr' \<Rightarrow>
                         (case to_native Ucorr freq_axis N_dim of
                            Inl e \<Rightarrow> Inl e
                          | Inr Ucorr' \<Rightarrow> Inr (Qcorr', Ucorr'))))))"

text \<open>
  The tables that \<^verbatim>\<open>read_prediction\<close> accepts, stated on the lines of the file: there
  is a line with fields, all such lines have the same number of fields, and that number
  is three, or it is one and there are exactly three such lines.
\<close>

definition loadable_table :: "'r list list \<Rightarrow> bool" where
  "loadable_table lines =
     (let rows = filter (\<lambda>r. r \<noteq> []) lines
      in rows \<noteq> [] \<and> (\<forall>r \<in> set rows. length r = length (hd rows))
         \<and> (length (hd rows) = 3 \<or> length (hd rows) = 1 \<and> length rows = 3))"

section \<open>An arithmetic with a non-finite value\<close>

text \<open>
  Floats with one value, \<open>None\<close>, standing for every float that is not finite (an
  infinity or NaN). Finite operands are computed exactly, an operand that is not finite
  gives a result that is not finite, and the quotient by the complex zero has two parts
  that are not finite, as numpy's \<^verbatim>\<open>in1r/0\<close> and \<^verbatim>\<open>in1i/0\<close> are.
\<close>

definition lift2 :: "(real \<Rightarrow> real \<Rightarrow> real) \<Rightarrow> real option \<Rightarrow> real option \<Rightarrow> real option" where
  "lift2 f a b = (case a of None \<Rightarrow> None | Some x \<Rightarrow> (case b of None \<Rightarrow> None | Some y \<Rightarrow> Some (f x y)))"

definition xdiv ::
  "real option \<times> real option \<Rightarrow> real option \<times> real option \<Rightarrow> real option \<times> real option" where
  "xdiv p t =
     (case (fst p, snd p, fst t, snd t) of
        (Some a, Some b, Some c, Some d) \<Rightarrow>
          if c = 0 \<and> d = 0 then (None, None)
          else (Some (Re (Complex a b / Complex c d)), Some (Im (Complex a b / Complex c d)))
      | _ \<Rightarrow> (None, None))"

definition extended_arith :: "(real option, real option \<times> real option) arith" where
  "extended_arith =
     \<lparr> cplx = (\<lambda>x. (x, Some 0)),
       imag_unit = (Some 0, Some 1),
       cadd = (\<lambda>p q. (lift2 (+) (fst p) (fst q), lift2 (+) (snd p) (snd q))),
       cmul = (\<lambda>p q. (lift2 (-) (lift2 (*) (fst p) (fst q)) (lift2 (*) (snd p) (snd q)),
                       lift2 (+) (lift2 (*) (fst p) (snd q)) (lift2 (*) (snd p) (fst q)))),
       cdiv = xdiv,
       creal = fst,
       cimag = snd \<rparr>"

section \<open>Example data\<close>

text \<open>
  Two 2 by 2 cubes whose first FITS axis is the frequency axis and a header object held
  by a caller; a file system with these cubes, a U cube of another shape, a Q cube of
  three axes, a file without bytes, and predictions of two and of three channels.
\<close>

definition example_header :: header where
  "example_header =
     [(''NAXIS'', HInt 2), (''CTYPE1'', HStr ''FREQ''), (''CTYPE2'', HStr ''RA'')]"

definition example_Q :: "real ndarray" where
  "example_Q = \<lparr>shape = [2, 2], data = [1, 2, 3, 4]\<rparr>"

definition example_U :: "real ndarray" where
  "example_U = \<lparr>shape = [2, 2], data = [5, 6, 7, 8]\<rparr>"

definition example_world :: "real world" where
  "example_world =
     \<lparr> headers = [example_header, [(''NAXIS'', HInt 0)]],
       files = [''Q.fits'' \<mapsto> FitsFile example_header example_Q,
                ''U.fits'' \<mapsto> FitsFile example_header example_U,
                ''empty.fits'' \<mapsto> TextFile []] \<rparr>"

definition example_header3 :: header where
  "example_header3 =
     [(''NAXIS'', HInt 3), (''CTYPE1'', HStr ''FREQ''), (''CTYPE2'', HStr ''RA''),
      (''CTYPE3'', HStr ''DEC'')]"

text \<open>A field of a text file that is the number \<open>x\<close>.\<close>

definition num :: "real \<Rightarrow> real option option" where
  "num x = Some (Some x)"

definition float_world :: "real option world" where
  "float_world =
     \<lparr> headers = [],
       files = [''Q.fits'' \<mapsto> FitsFile example_header (map_nd Some example_Q),
                ''U.fits'' \<mapsto> FitsFile example_header (map_nd Some example_U),
                ''U23.fits'' \<mapsto> FitsFile example_header
                   \<lparr>shape = [2, 3], data = map Some [1, 2, 3, 4, 5, 6]\<rparr>,
                ''Q234.fits'' \<mapsto> FitsFile example_header3
                   \<lparr>shape = [2, 3, 4], data = map (\<lambda>k. Some (real k)) [0..<24]\<rparr>,
                ''nodata.fits'' \<mapsto> FitsHeaderOnly [(''NAXIS'', HInt 0)],
                ''pred2.txt'' \<mapsto> TextFile [[num 100, num 1, num 0], [num 200, num 0, num 1]],
                ''pred3.txt'' \<mapsto> TextFile [[num 100, num 1, num 0], [num 200, num 0, num 1],
                                            [num 300, num 1, num 1]],
                ''one_row.txt'' \<mapsto> TextFile [[num 100, num 3, num 4]],
                ''one_column.txt'' \<mapsto> TextFile [[num 1], [num 2], [num 3]],
                ''not_numeric.txt'' \<mapsto> TextFile [[None, num 1, num 2],
                                                  [num 3, num 4, num 5]]] \<rparr>"

section \<open>Row-major indexing\<close>

lemma length_indices: "length (indices s) = prod_list s"
  unfolding indices_def by (induction s) (auto simp: length_concat o_def sum_list_triv)

lemma set_indices: "set (indices s) = {idx. valid_index s idx}"
  unfolding indices_def valid_index_def product_lists_set
  by (auto simp: list_all2_map2 list_all2_conv_all_nth)

text \<open>The indices of a shape come in blocks of equal length, one for each value of the first component.\<close>

lemma nth_concat_blocks:
  "\<forall>xs \<in> set xss. length xs = m \<Longrightarrow> i < length xss \<Longrightarrow> r < m \<Longrightarrow>
     concat xss ! (i * m + r) = xss ! i ! r"
proof (induction xss arbitrary: i)
  case Nil then show ?case by simp
next
  case (Cons xs xss)
  show ?case
  proof (cases i)
    case 0 with Cons.prems show ?thesis by (simp add: nth_append)
  next
    case (Suc k)
    with Cons.prems have "concat xss ! (k * m + r) = xss ! k ! r"
      by (intro Cons.IH) auto
    with Suc Cons.prems show ?thesis by (simp add: nth_append add.assoc)
  qed
qed

lemma offset_less: "valid_index s idx \<Longrightarrow> offset s idx < prod_list s"
proof (induction s idx rule: offset.induct)
  case (1 n ns i "is")
  then have "i < n" "offset ns is < prod_list ns" by (auto simp: valid_index_def)
  then have "i * prod_list ns + offset ns is < Suc i * prod_list ns" by simp
  also have "\<dots> \<le> n * prod_list ns" using \<open>i < n\<close> by (intro mult_le_mono1) simp
  finally show ?case by simp
qed (auto simp: valid_index_def)

lemma indices_nth_offset: "valid_index s idx \<Longrightarrow> indices s ! offset s idx = idx"
proof (induction s idx rule: offset.induct)
  case (1 n ns i "is")
  then have i: "i < n" and v: "valid_index ns is" by (auto simp: valid_index_def)
  let ?blocks = "map (\<lambda>i. map ((#) i) (indices ns)) [0..<n]"
  have "concat ?blocks ! (i * prod_list ns + offset ns is) = ?blocks ! i ! offset ns is"
    using i offset_less[OF v] by (intro nth_concat_blocks) (auto simp: length_indices)
  also have "\<dots> = i # is"
    using i offset_less[OF v] 1(1)[OF v] by (simp add: length_indices)
  finally show ?case by (simp add: indices_def)
qed (auto simp: valid_index_def indices_def)

lemma concat_blocks_upt: "concat (map (\<lambda>i. map (\<lambda>r. i * m + r) [0..<m]) [0..<n]) = [0..<n * m]"
proof (induction n)
  case 0 show ?case by simp
next
  case (Suc n)
  have "map (\<lambda>r. n * m + r) [0..<m] = [n * m..<n * m + m]"
    using map_add_upt[of "n * m" m] by (simp add: add.commute)
  moreover have "[0..<n * m + m] = [0..<n * m] @ [n * m..<n * m + m]"
    by (rule upt_add_eq_append) simp
  ultimately show ?case using Suc by (simp add: add.commute)
qed

lemma map_offset_indices: "map (offset s) (indices s) = [0..<prod_list s]"
proof (induction s)
  case Nil show ?case by (simp add: indices_def)
next
  case (Cons n ns)
  have "map (offset (n # ns)) (indices (n # ns))
        = concat (map (\<lambda>i. map (\<lambda>r. i * prod_list ns + r) (map (offset ns) (indices ns))) [0..<n])"
    by (simp add: indices_def map_concat o_def)
  also have "\<dots> = [0..<n * prod_list ns]"
    unfolding Cons.IH[unfolded indices_def] Cons.IH by (rule concat_blocks_upt)
  finally show ?case by simp
qed

text \<open>Reading a well-formed array at all its indices, in order, gives its elements.\<close>

lemma map_get_indices: "well_formed a \<Longrightarrow> map (get a) (indices (shape a)) = data a"
proof -
  assume wf: "well_formed a"
  have "map (get a) (indices (shape a)) = map ((!) (data a)) (map (offset (shape a)) (indices (shape a)))"
    by (simp add: get_def o_def)
  also have "\<dots> = map ((!) (data a)) [0..<length (data a)]"
    using wf by (simp add: map_offset_indices well_formed_def)
  finally show ?thesis by (simp add: map_nth)
qed

lemma get_build:
  "valid_index s j \<Longrightarrow> get \<lparr>shape = s, data = map f (indices s)\<rparr> j = f j"
  using offset_less[of s j] indices_nth_offset[of s j]
  by (simp add: get_def length_indices)

lemma is_perm_length: "is_perm axes n \<Longrightarrow> length axes = n"
  unfolding is_perm_def using distinct_card[of axes] by auto

text \<open>Positions in an axis order, and the inverse of a permutation of the axes.\<close>

lemma pos_nth:
  "distinct axes \<Longrightarrow> p < length axes \<Longrightarrow> length (takeWhile (\<lambda>j. j \<noteq> axes ! p) axes) = p"
proof (induction axes arbitrary: p)
  case Nil then show ?case by simp
next
  case (Cons x xs)
  show ?case
  proof (cases p)
    case 0 then show ?thesis by simp
  next
    case (Suc q)
    with Cons.prems have "xs ! q \<noteq> x" "q < length xs" "distinct xs" by auto
    with Suc Cons.IH[of q] show ?thesis by simp
  qed
qed

lemma nth_pos:
  "k \<in> set axes \<Longrightarrow> length (takeWhile (\<lambda>j. j \<noteq> k) axes) < length axes \<and>
     axes ! length (takeWhile (\<lambda>j. j \<noteq> k) axes) = k"
  by (induction axes) auto

lemma length_inverse_order [simp]: "length (inverse_order axes) = length axes"
  by (simp add: inverse_order_def)

lemma inverse_order_nth:
  "is_perm axes n \<Longrightarrow> p < n \<Longrightarrow> inverse_order axes ! (axes ! p) = p"
proof -
  assume a: "is_perm axes n" "p < n"
  then have len: "length axes = n" by (simp add: is_perm_length)
  with a have "axes ! p < n" unfolding is_perm_def using nth_mem[of p axes] by auto
  with a len show ?thesis
    by (simp add: inverse_order_def pos_nth is_perm_def)
qed

lemma nth_inverse_order:
  "is_perm axes n \<Longrightarrow> k < n \<Longrightarrow> inverse_order axes ! k < n \<and> axes ! (inverse_order axes ! k) = k"
proof -
  assume a: "is_perm axes n" "k < n"
  then have len: "length axes = n" by (simp add: is_perm_length)
  from a have "k \<in> set axes" by (simp add: is_perm_def)
  from nth_pos[OF this] a len show ?thesis by (simp add: inverse_order_def)
qed

lemma inverse_order_unique:
  assumes "is_perm axes n" "length ys = n" "\<And>p. p < n \<Longrightarrow> ys ! (axes ! p) = p"
  shows "inverse_order axes = ys"
proof (rule nth_equalityI)
  show "length (inverse_order axes) = length ys"
    using assms is_perm_length by simp
next
  fix k assume "k < length (inverse_order axes)"
  then have k: "k < n" using assms is_perm_length by simp
  from nth_inverse_order[OF assms(1) k] assms(3)[of "inverse_order axes ! k"]
  show "inverse_order axes ! k = ys ! k" by simp
qed

lemma is_perm_inverse_order: "is_perm axes n \<Longrightarrow> is_perm (inverse_order axes) n"
proof -
  assume a: "is_perm axes n"
  then have len: "length axes = n" by (simp add: is_perm_length)
  have inj: "inj_on (\<lambda>k. inverse_order axes ! k) {0..<n}"
  proof (rule inj_onI)
    fix x y assume xy: "x \<in> {0..<n}" "y \<in> {0..<n}"
      and eq: "inverse_order axes ! x = inverse_order axes ! y"
    have "x = axes ! (inverse_order axes ! x)" using nth_inverse_order[OF a, of x] xy by simp
    also have "\<dots> = axes ! (inverse_order axes ! y)" by (simp only: eq)
    also have "\<dots> = y" using nth_inverse_order[OF a, of y] xy by simp
    finally show "x = y" .
  qed
  have eq: "map (\<lambda>k. inverse_order axes ! k) [0..<n] = inverse_order axes"
    using len by (intro nth_equalityI) auto
  have "distinct (map (\<lambda>k. inverse_order axes ! k) [0..<n])"
    using inj by (simp add: distinct_map)
  then have d: "distinct (inverse_order axes)"
    unfolding eq .
  have "set (inverse_order axes) \<subseteq> {0..<n}"
    using nth_inverse_order[OF a] len by (auto simp: in_set_conv_nth)
  moreover have "card (set (inverse_order axes)) = n"
    using d len by (simp add: distinct_card)
  ultimately have "set (inverse_order axes) = {0..<n}"
    by (intro card_subset_eq) auto
  with d show ?thesis by (simp add: is_perm_def)
qed

lemma inverse_order_involution: "is_perm axes n \<Longrightarrow> inverse_order (inverse_order axes) = axes"
proof -
  assume a: "is_perm axes n"
  show ?thesis
  proof (rule inverse_order_unique[OF is_perm_inverse_order[OF a]])
    show "length axes = n" using a by (rule is_perm_length)
  next
    fix p assume "p < n"
    then show "axes ! (inverse_order axes ! p) = p" using nth_inverse_order[OF a] by simp
  qed
qed

text \<open>Transposition permutes shapes and indices alike.\<close>

lemma valid_index_length: "valid_index s idx \<Longrightarrow> length idx = length s"
  by (simp add: valid_index_def list_all2_lengthD)

lemma valid_index_nth: "valid_index s idx \<Longrightarrow> k < length s \<Longrightarrow> idx ! k < s ! k"
  by (simp add: valid_index_def list_all2_conv_all_nth)

lemma valid_index_permute:
  assumes "is_perm axes (length s)" "valid_index s idx"
  shows "valid_index (map (\<lambda>k. s ! k) axes) (map (\<lambda>k. idx ! k) axes)"
proof -
  have "\<And>k. k \<in> set axes \<Longrightarrow> k < length s" using assms(1) by (simp add: is_perm_def)
  then show ?thesis
    using assms(2) by (auto simp: valid_index_def list_all2_conv_all_nth)
qed

lemma permute_inverse:
  assumes "is_perm axes n" "length idx = n"
  shows "map (\<lambda>p. map (\<lambda>k. idx ! k) axes ! p) (inverse_order axes) = idx"
proof (rule nth_equalityI)
  show "length (map (\<lambda>p. map (\<lambda>k. idx ! k) axes ! p) (inverse_order axes)) = length idx"
    using assms is_perm_length by simp
next
  fix k assume "k < length (map (\<lambda>p. map (\<lambda>k. idx ! k) axes ! p) (inverse_order axes))"
  then have k: "k < n" using assms is_perm_length by simp
  then show "map (\<lambda>p. map (\<lambda>k. idx ! k) axes ! p) (inverse_order axes) ! k = idx ! k"
    using nth_inverse_order[OF assms(1) k] is_perm_length[OF assms(1)] by simp
qed

lemma shape_transpose_nd [simp]: "shape (transpose_nd a axes) = map (\<lambda>k. shape a ! k) axes"
  by (simp add: transpose_nd_def Let_def)

lemma well_formed_transpose_nd: "well_formed (transpose_nd a axes)"
  by (simp add: well_formed_def transpose_nd_def Let_def length_indices)

lemma get_transpose_nd:
  "valid_index (map (\<lambda>k. shape a ! k) axes) j \<Longrightarrow>
     get (transpose_nd a axes) j = get a (map (\<lambda>p. j ! p) (inverse_order axes))"
  unfolding transpose_nd_def Let_def by (rule get_build)

lemma get_transpose_permuted:
  assumes "is_perm axes (ndim a)" "valid_index (shape a) idx"
  shows "get (transpose_nd a axes) (map (\<lambda>k. idx ! k) axes) = get a idx"
proof -
  have "valid_index (map (\<lambda>k. shape a ! k) axes) (map (\<lambda>k. idx ! k) axes)"
    using assms by (intro valid_index_permute) (simp_all add: ndim_def)
  then have "get (transpose_nd a axes) (map (\<lambda>k. idx ! k) axes)
      = get a (map (\<lambda>p. map (\<lambda>k. idx ! k) axes ! p) (inverse_order axes))"
    by (rule get_transpose_nd)
  also have "\<dots> = get a idx"
    using permute_inverse[OF assms(1), of idx] valid_index_length[OF assms(2)] by (simp add: ndim_def)
  finally show ?thesis .
qed

lemma shape_permute_inverse:
  assumes "is_perm axes (length s)"
  shows "map (\<lambda>p. map (\<lambda>k. s ! k) axes ! p) (inverse_order axes) = s"
  using permute_inverse[OF assms, of s] by simp

text \<open>Transposing by an axis order and then by its inverse gives back the array.\<close>

lemma transpose_nd_inverse:
  assumes "is_perm axes (ndim a)" "well_formed a"
  shows "transpose_nd (transpose_nd a axes) (inverse_order axes) = a"
proof -
  let ?b = "transpose_nd a axes"
  have sh: "map (\<lambda>p. shape ?b ! p) (inverse_order axes) = shape a"
    using shape_permute_inverse[of axes "shape a"] assms(1) by (simp add: ndim_def)
  have "data (transpose_nd ?b (inverse_order axes))
        = map (\<lambda>j. get ?b (map (\<lambda>p. j ! p) (inverse_order (inverse_order axes)))) (indices (shape a))"
    using sh by (simp add: transpose_nd_def Let_def)
  also have "\<dots> = map (\<lambda>j. get ?b (map (\<lambda>p. j ! p) axes)) (indices (shape a))"
    using inverse_order_involution[OF assms(1)] by simp
  also have "\<dots> = map (get a) (indices (shape a))"
    using get_transpose_permuted[OF assms(1)] by (intro map_cong) (simp_all add: set_indices)
  also have "\<dots> = data a" using assms(2) by (rule map_get_indices)
  finally have "data (transpose_nd ?b (inverse_order axes)) = data a" .
  moreover have "shape (transpose_nd ?b (inverse_order axes)) = shape a" using sh by simp
  ultimately show ?thesis by simp
qed

section \<open>The axis order of \<^verbatim>\<open>moveaxis\<close>\<close>

text \<open>The order computed by \<^verbatim>\<open>moveaxis\<close>: position by position, a permutation, and its inverse moves the axis back.\<close>

lemma upt_split: "s < n \<Longrightarrow> [0..<n] = [0..<s] @ s # [Suc s..<n]"
proof -
  assume s: "s < n"
  have "[0..<n] = [0..<s] @ [s..<n]"
    using upt_add_eq_append[of 0 s "n - s"] s by simp
  also have "[s..<n] = s # [Suc s..<n]" using s by (rule upt_conv_Cons)
  finally show ?thesis .
qed

lemma filter_neq_upt:
  "s < n \<Longrightarrow> filter (\<lambda>k. k \<noteq> s) [0..<n] = [0..<s] @ [Suc s..<n]"
proof -
  assume s: "s < n"
  have a: "filter (\<lambda>k. k \<noteq> s) [0..<s] = [0..<s]" by (rule filter_True) simp
  have b: "filter (\<lambda>k. k \<noteq> s) [Suc s..<n] = [Suc s..<n]" by (rule filter_True) simp
  show ?thesis unfolding upt_split[OF s] using a b by simp
qed

lemma set_list_insert: "set (list_insert xs d x) = insert x (set xs)"
proof -
  have "set (take d xs) \<union> set (drop d xs) = set xs"
    using set_append[of "take d xs" "drop d xs"] by simp
  then show ?thesis by (auto simp: list_insert_def)
qed

lemma distinct_list_insert: "distinct xs \<Longrightarrow> x \<notin> set xs \<Longrightarrow> distinct (list_insert xs d x)"
proof -
  assume d: "distinct xs" and x: "x \<notin> set xs"
  have "distinct (take d xs @ drop d xs)" using d by simp
  then have "distinct (take d xs)" "distinct (drop d xs)" "set (take d xs) \<inter> set (drop d xs) = {}"
    by (simp_all only: distinct_append)
  moreover have "x \<notin> set (take d xs)" "x \<notin> set (drop d xs)"
    using x by (auto dest: in_set_takeD in_set_dropD)
  ultimately show ?thesis by (simp add: list_insert_def)
qed

lemma list_insert_nth:
  "d \<le> length xs \<Longrightarrow> p \<le> length xs \<Longrightarrow>
     list_insert xs d x ! p = (if p < d then xs ! p else if p = d then x else xs ! (p - 1))"
proof -
  assume d: "d \<le> length xs" and p: "p \<le> length xs"
  have lt: "length (take d xs) = d" using d by simp
  show ?thesis
  proof (cases "p < d")
    case True
    then show ?thesis using lt by (simp add: list_insert_def nth_append)
  next
    case False
    then obtain k where k: "p = d + k" using le_Suc_ex[of d p] by auto
    have "list_insert xs d x ! p = (x # drop d xs) ! k"
      unfolding list_insert_def k using nth_append_length_plus[of "take d xs" "x # drop d xs" k] lt by simp
    also have "\<dots> = (if k = 0 then x else xs ! (d + (k - 1)))"
      using d p k by (cases k) simp_all
    finally show ?thesis using k False by (cases k) simp_all
  qed
qed

lemma rest_nth:
  "s < n \<Longrightarrow> q < n - 1 \<Longrightarrow> ([0..<s] @ [Suc s..<n]) ! q = (if q < s then q else Suc q)"
  by (auto simp: nth_append)

lemma length_moveaxis_order: "s < n \<Longrightarrow> length (moveaxis_order n s d) = n"
  by (simp add: moveaxis_order_def list_insert_def filter_neq_upt)

lemma moveaxis_order_nth:
  assumes "s < n" "d < n" "p < n"
  shows "moveaxis_order n s d ! p =
           (if p < d then (if p < s then p else Suc p)
            else if p = d then s
            else (if p - 1 < s then p - 1 else p))"
proof -
  let ?rest = "[0..<s] @ [Suc s..<n]"
  have len: "length ?rest = n - 1" using assms by simp
  have "moveaxis_order n s d ! p = (if p < d then ?rest ! p else if p = d then s else ?rest ! (p - 1))"
    unfolding moveaxis_order_def filter_neq_upt[OF assms(1)]
    using assms len by (intro list_insert_nth) simp_all
  also have "\<dots> = (if p < d then (if p < s then p else Suc p)
            else if p = d then s
            else (if p - 1 < s then p - 1 else p))"
    using assms by (simp add: rest_nth)
  finally show ?thesis .
qed

lemma is_perm_moveaxis_order: "s < n \<Longrightarrow> d < n \<Longrightarrow> is_perm (moveaxis_order n s d) n"
proof -
  assume s: "s < n" and d: "d < n"
  let ?rest = "[0..<s] @ [Suc s..<n]"
  have eq: "moveaxis_order n s d = list_insert ?rest d s"
    by (simp only: moveaxis_order_def filter_neq_upt[OF s])
  have "set [0..<n] = set ([0..<s] @ s # [Suc s..<n])" by (simp only: upt_split[OF s])
  then have "insert s (set ?rest) = {0..<n}" by simp
  then have st: "set (moveaxis_order n s d) = {0..<n}"
    by (simp only: eq set_list_insert)
  have "distinct ?rest" by auto
  moreover have "s \<notin> set ?rest" by auto
  ultimately have "distinct (moveaxis_order n s d)"
    unfolding eq by (rule distinct_list_insert)
  with st show ?thesis by (simp only: is_perm_def)
qed

lemma move_arith:
  fixes s d p n r :: nat
  assumes "s < n" "d < n" "p < n"
   and r: "r = (if p < d then (if p < s then p else Suc p)
            else if p = d then s
            else (if p - 1 < s then p - 1 else p))"
  shows "(if r < s then (if r < d then r else Suc r)
            else if r = s then d
            else (if r - 1 < d then r - 1 else r)) = p"
proof (cases "p < d")
  case True
  then show ?thesis using assms by (cases "p < s") auto
next
  case False
  show ?thesis
  proof (cases "p = d")
    case True
    then show ?thesis using assms by auto
  next
    case False
    with \<open>\<not> p < d\<close> have "d < p" by simp
    then show ?thesis using assms by (cases "p - 1 < s") auto
  qed
qed


lemma inverse_moveaxis_order:
  assumes "s < n" "d < n"
  shows "inverse_order (moveaxis_order n s d) = moveaxis_order n d s"
proof (rule inverse_order_unique[OF is_perm_moveaxis_order[OF assms]])
  show "length (moveaxis_order n d s) = n" by (rule length_moveaxis_order[OF assms(2)])
next
  fix p assume p: "p < n"
  define r where "r = moveaxis_order n s d ! p"
  have r: "r = (if p < d then (if p < s then p else Suc p)
            else if p = d then s
            else (if p - 1 < s then p - 1 else p))"
    unfolding r_def by (rule moveaxis_order_nth[OF assms p])
  have "r \<in> set (moveaxis_order n s d)"
    unfolding r_def using p length_moveaxis_order[OF assms(1), of d] by (intro nth_mem) simp
  then have rn: "r < n" using is_perm_moveaxis_order[OF assms] by (simp add: is_perm_def)
  have "moveaxis_order n d s ! r = (if r < s then (if r < d then r else Suc r)
            else if r = s then d
            else (if r - 1 < d then r - 1 else r))"
    by (rule moveaxis_order_nth[OF assms(2) assms(1) rn])
  also have "\<dots> = p" by (rule move_arith[OF assms p r])
  finally show "moveaxis_order n d s ! (moveaxis_order n s d ! p) = p" by (simp only: r_def)
qed

section \<open>Moving an axis and moving it back\<close>

lemma ndim_transpose_nd: "ndim (transpose_nd a axes) = length axes"
  by (simp add: ndim_def)

lemma moveaxis_nat:
  "s < ndim a \<Longrightarrow> d < ndim a \<Longrightarrow>
     moveaxis a (int s) (int d) = Inr (transpose_nd a (moveaxis_order (ndim a) s d))"
  by (simp add: moveaxis_def normalize_axis_index_def)

lemma moveaxis_round_trip:
  assumes "well_formed a" "s < ndim a" "d < ndim a"
  shows "\<exists>b. moveaxis a (int s) (int d) = Inr b \<and> moveaxis b (int d) (int s) = Inr a"
proof -
  let ?o = "moveaxis_order (ndim a) s d"
  let ?b = "transpose_nd a ?o"
  have nb: "ndim ?b = ndim a"
    using assms by (simp add: ndim_transpose_nd length_moveaxis_order)
  have "moveaxis ?b (int d) (int s) = Inr (transpose_nd ?b (moveaxis_order (ndim a) d s))"
    using moveaxis_nat[of d ?b s] assms nb by simp
  also have "moveaxis_order (ndim a) d s = inverse_order ?o"
    using inverse_moveaxis_order[OF assms(2,3)] by simp
  also have "transpose_nd ?b (inverse_order ?o) = a"
    using is_perm_moveaxis_order[OF assms(2,3)] assms(1) by (rule transpose_nd_inverse)
  finally have "moveaxis ?b (int d) (int s) = Inr a" .
  with moveaxis_nat[OF assms(2,3)] show ?thesis by blast
qed

lemma is_perm_upt: "is_perm [0..<n] n"
  by (simp add: is_perm_def)

lemma inverse_order_upt: "inverse_order [0..<n] = [0..<n]"
  by (rule inverse_order_unique[OF is_perm_upt]) simp_all

lemma transpose_nd_identity:
  assumes "well_formed a"
  shows "transpose_nd a [0..<ndim a] = a"
proof -
  have sh: "map (\<lambda>k. shape a ! k) [0..<ndim a] = shape a"
    unfolding ndim_def by (rule map_nth)
  have "map (\<lambda>j. get a (map (\<lambda>p. j ! p) [0..<ndim a])) (indices (shape a))
        = map (get a) (indices (shape a))"
  proof (rule map_cong[OF refl])
    fix j assume "j \<in> set (indices (shape a))"
    then have "length j = ndim a"
      by (simp add: set_indices valid_index_length ndim_def)
    then have "map (\<lambda>p. j ! p) [0..<ndim a] = j" using map_nth[of j] by simp
    then show "get a (map (\<lambda>p. j ! p) [0..<ndim a]) = get a j" by simp
  qed
  also have "\<dots> = data a" using assms by (rule map_get_indices)
  finally show ?thesis
    using sh by (simp add: transpose_nd_def Let_def inverse_order_upt)
qed

lemma moveaxis_order_front: "0 < n \<Longrightarrow> moveaxis_order n 0 0 = [0..<n]"
proof -
  assume n: "0 < n"
  have "moveaxis_order n 0 0 = 0 # [Suc 0..<n]"
    using filter_neq_upt[OF n] by (simp add: moveaxis_order_def list_insert_def)
  also have "\<dots> = [0..<n]" using n by (simp add: upt_conv_Cons)
  finally show ?thesis .
qed

lemma moveaxis_order_to_front:
  "s < n \<Longrightarrow> moveaxis_order n s 0 = s # [0..<s] @ [Suc s..<n]"
  by (simp add: moveaxis_order_def list_insert_def filter_neq_upt)

lemma map_nth_upt_take: "s \<le> length xs \<Longrightarrow> map (\<lambda>k. xs ! k) [0..<s] = take s xs"
  by (rule nth_equalityI) simp_all

lemma map_nth_upt_drop: "map (\<lambda>k. xs ! k) [s..<length xs] = drop s xs"
  by (rule nth_equalityI) simp_all

section \<open>Axis normalization\<close>

text \<open>
  C1. Axis-order round trip: for an array of rank \<open>N\<close> and a frequency-axis index
  \<open>ax\<close> in \<open>0..N\<close>, normalizing to the canonical layout succeeds, and restoring the
  native layout of the result gives back the array itself. The cases \<open>ax = 0\<close> (nothing
  moves) and \<open>ax = N\<close> (normalization skips the move, restoration moves axis 0 to
  position 0) are included.
\<close>

theorem axis_order_round_trip:
  assumes "well_formed A" and "N = int (ndim A)" and "0 \<le> ax" and "ax \<le> N"
  shows "\<exists>C. to_canonical A ax N = Inr C \<and> to_native C ax N = Inr A
           \<and> (ax = 0 \<or> ax = N \<longrightarrow> C = A)
           \<and> (ax = 0 \<longrightarrow> to_native C ax N = Inr C)
           \<and> (ax \<noteq> 0 \<and> ax = N \<longrightarrow> to_native C ax N = moveaxis C 0 0)"
proof (cases "ax = 0")
  case True
  then show ?thesis by (simp add: to_canonical_def to_native_def)
next
  case False
  note ax0 = False
  show ?thesis
  proof (cases "ax = N")
    case True
    with ax0 assms have pos: "0 < ndim A" by simp
    have "moveaxis A (int 0) (int 0) = Inr (transpose_nd A (moveaxis_order (ndim A) 0 0))"
      using pos by (intro moveaxis_nat)
    also have "\<dots> = Inr A"
      using pos assms(1) by (simp add: moveaxis_order_front transpose_nd_identity)
    finally show ?thesis using True ax0 by (simp add: to_canonical_def to_native_def)
  next
    case False
    define s where "s = nat (N - ax)"
    have s: "s < ndim A" "int s = N - ax" using assms ax0 False by (simp_all add: s_def)
    have z: "0 < ndim A" using s by simp
    from moveaxis_round_trip[OF assms(1) s(1) z]
    obtain b where "moveaxis A (int s) (int 0) = Inr b" "moveaxis b (int 0) (int s) = Inr A"
      by blast
    then show ?thesis using ax0 False s(2) by (simp add: to_canonical_def to_native_def)
  qed
qed

theorem axis_order_round_trip_witness:
  "well_formed \<lparr>shape = [2, 3], data = [1, 2, 3, 4, 5, 6 :: int]\<rparr>
   \<and> to_canonical \<lparr>shape = [2, 3], data = [1, 2, 3, 4, 5, 6 :: int]\<rparr> 1 2
        = Inr \<lparr>shape = [3, 2], data = [1, 4, 2, 5, 3, 6]\<rparr>
   \<and> to_native \<lparr>shape = [3, 2], data = [1, 4, 2, 5, 3, 6 :: int]\<rparr> 1 2
        = Inr \<lparr>shape = [2, 3], data = [1, 2, 3, 4, 5, 6]\<rparr>
   \<and> to_canonical \<lparr>shape = [2, 3], data = [1, 2, 3, 4, 5, 6 :: int]\<rparr> 0 2
        = Inr \<lparr>shape = [2, 3], data = [1, 2, 3, 4, 5, 6]\<rparr>
   \<and> to_native \<lparr>shape = [2, 3], data = [1, 2, 3, 4, 5, 6 :: int]\<rparr> 0 2
        = Inr \<lparr>shape = [2, 3], data = [1, 2, 3, 4, 5, 6]\<rparr>
   \<and> to_canonical \<lparr>shape = [2, 3], data = [1, 2, 3, 4, 5, 6 :: int]\<rparr> 2 2
        = Inr \<lparr>shape = [2, 3], data = [1, 2, 3, 4, 5, 6]\<rparr>
   \<and> moveaxis \<lparr>shape = [2, 3], data = [1, 2, 3, 4, 5, 6 :: int]\<rparr> 0 0
        = Inr \<lparr>shape = [2, 3], data = [1, 2, 3, 4, 5, 6]\<rparr>"
proof -
  let ?A = "\<lparr>shape = [2, 3], data = [1, 2, 3, 4, 5, 6 :: int]\<rparr>"
  have wf: "well_formed ?A" by (simp add: well_formed_def)
  have n: "(2::int) = int (ndim ?A)" by (simp add: ndim_def)
  have c: "to_canonical ?A 1 2 = Inr \<lparr>shape = [3, 2], data = [1, 4, 2, 5, 3, 6]\<rparr>"
    by code_simp
  from axis_order_round_trip[OF wf n, of 1] obtain C
    where "to_canonical ?A 1 2 = Inr C" "to_native C 1 2 = Inr ?A" by auto
  with c have one: "to_native \<lparr>shape = [3, 2], data = [1, 4, 2, 5, 3, 6]\<rparr> 1 2 = Inr ?A"
    by simp
  from axis_order_round_trip[OF wf n, of 0] obtain C0
    where "to_canonical ?A 0 2 = Inr C0" "to_native C0 0 2 = Inr ?A" "C0 = ?A" by auto
  then have zero: "to_canonical ?A 0 2 = Inr ?A" "to_native ?A 0 2 = Inr ?A" by simp_all
  from axis_order_round_trip[OF wf n, of 2] obtain C2
    where "to_canonical ?A 2 2 = Inr C2" "to_native C2 2 2 = Inr ?A" "C2 = ?A"
      "to_native C2 2 2 = moveaxis C2 0 0" by auto
  then have two: "to_canonical ?A 2 2 = Inr ?A" "moveaxis ?A 0 0 = Inr ?A" by simp_all
  from wf c one zero two show ?thesis by blast
qed

text \<open>
  C9. Canonical layout: for an array of rank \<open>N\<close> and a detected frequency axis
  \<open>ax\<close> in \<open>1..N\<close>, that is numpy axis \<open>f = N - ax\<close>, normalization succeeds; axis
  \<open>f\<close> of the array is axis 0 of the result, and the other axes follow in their
  original order: the element at index \<open>idx\<close> of the array is the element of the
  result at the index that starts with \<open>idx ! f\<close> and continues with \<open>idx\<close> without
  its component \<open>f\<close>.
\<close>

theorem canonical_layout:
  assumes "N = int (ndim A)" and "1 \<le> ax" and "ax \<le> N"
  shows "\<exists>C. to_canonical A ax N = Inr C
           \<and> shape C = shape A ! nat (N - ax)
                 # take (nat (N - ax)) (shape A) @ drop (Suc (nat (N - ax))) (shape A)
           \<and> (\<forall>idx. valid_index (shape A) idx \<longrightarrow>
                 get C (idx ! nat (N - ax) # take (nat (N - ax)) idx @ drop (Suc (nat (N - ax))) idx)
                   = get A idx)"
proof -
  define f where "f = nat (N - ax)"
  have f: "f < ndim A" "int f = N - ax" using assms by (simp_all add: f_def)
  let ?o = "f # [0..<f] @ [Suc f..<ndim A]"
  let ?C = "transpose_nd A ?o"
  have perm: "is_perm ?o (ndim A)"
    using is_perm_moveaxis_order[of f "ndim A" 0] f(1) by (simp add: moveaxis_order_to_front)
  have pick: "map (\<lambda>k. xs ! k) ?o = xs ! f # take f xs @ drop (Suc f) xs"
    if "length xs = ndim A" for xs :: "nat list"
    using that f(1) map_nth_upt_take[of f xs] map_nth_upt_drop[of xs "Suc f"] by simp
  have sh: "shape ?C = shape A ! f # take f (shape A) @ drop (Suc f) (shape A)"
    using pick[of "shape A"] by (simp add: ndim_def)
  have el: "get ?C (idx ! f # take f idx @ drop (Suc f) idx) = get A idx"
    if "valid_index (shape A) idx" for idx
  proof -
    have "length idx = ndim A" using that by (simp add: valid_index_length ndim_def)
    then have "idx ! f # take f idx @ drop (Suc f) idx = map (\<lambda>k. idx ! k) ?o"
      using pick[of idx] by simp
    then show ?thesis using get_transpose_permuted[OF perm that] by simp
  qed
  show ?thesis
  proof (cases "ax = N")
    case True
    then have f0: "f = 0" by (simp add: f_def)
    have ne: "shape A \<noteq> []" using f(1) by (auto simp: ndim_def)
    have a: "shape A = shape A ! 0 # drop (Suc 0) (shape A)"
      using ne by (cases "shape A") simp_all
    have b: "idx ! 0 # drop (Suc 0) idx = idx" if "valid_index (shape A) idx" for idx
    proof -
      have "length idx = length (shape A)" using that by (rule valid_index_length)
      with ne show ?thesis by (cases idx) simp_all
    qed
    have "to_canonical A ax N = Inr A" using True by (simp add: to_canonical_def)
    then show ?thesis using a b f0 unfolding f_def[symmetric] by simp
  next
    case False
    have z: "0 < ndim A" using f(1) by simp
    have "to_canonical A ax N = moveaxis A (int f) (int 0)"
      using False assms f(2) by (simp add: to_canonical_def)
    also have "\<dots> = Inr ?C"
      using moveaxis_nat[OF f(1) z] f(1) by (simp add: moveaxis_order_to_front)
    finally show ?thesis using sh el unfolding f_def[symmetric] by blast
  qed
qed

theorem canonical_layout_witness:
  "(3::int) = int (ndim \<lparr>shape = [2, 3, 4], data = map int [0..<24]\<rparr>)
   \<and> valid_index [2, 3, 4] [1, 2, 3]
   \<and> (\<exists>C. to_canonical \<lparr>shape = [2, 3, 4], data = map int [0..<24]\<rparr> 2 3 = Inr C
          \<and> shape C = [3, 2, 4]
          \<and> get C [2, 1, 3] = get \<lparr>shape = [2, 3, 4], data = map int [0..<24]\<rparr> [1, 2, 3])"
proof -
  let ?A = "\<lparr>shape = [2, 3, 4], data = map int [0..<24]\<rparr>"
  have n: "(3::int) = int (ndim ?A)" by (simp add: ndim_def)
  have v: "valid_index (shape ?A) [1, 2, 3]" by (simp add: valid_index_def)
  from canonical_layout[OF n, of 2] obtain C where
    c: "to_canonical ?A 2 3 = Inr C"
       "shape C = shape ?A ! nat (3 - 2)
                 # take (nat (3 - 2)) (shape ?A) @ drop (Suc (nat (3 - 2))) (shape ?A)"
       "\<forall>idx. valid_index (shape ?A) idx \<longrightarrow>
          get C (idx ! nat (3 - 2) # take (nat (3 - 2)) idx @ drop (Suc (nat (3 - 2))) idx)
            = get ?A idx"
    by auto
  from c(3) v have "get C ([1, 2, 3] ! nat (3 - 2) # take (nat (3 - 2)) [1, 2, 3]
                      @ drop (Suc (nat (3 - 2))) [1, 2, 3]) = get ?A [1, 2, 3]"
    by blast
  then have "get C [2, 1, 3] = get ?A [1, 2, 3]" by simp
  moreover from c(2) have "shape C = [3, 2, 4]" by simp
  ultimately show ?thesis using c(1) n v by auto
qed

section \<open>Frequency-axis detection\<close>

lemma freq_axis_step_eq:
  "freq_axis_step header i r = (if axis_label_matches header i then i else r)"
  by (simp add: freq_axis_step_def ctype_has_freq_def axis_label_matches_def header_get_def
           split: option.splits hvalue.splits)

lemma last_match_step:
  fixes m :: "int \<Rightarrow> bool" and r k :: int
  assumes k: "0 \<le> k"
    and IH: "if \<exists>i\<in>{1..k}. m i
             then 1 \<le> r \<and> r \<le> k \<and> m r \<and> (\<forall>i\<in>{r + 1..k}. \<not> m i) else r = 0"
  shows "if \<exists>i\<in>{1..k + 1}. m i
         then 1 \<le> (if m (k + 1) then k + 1 else r) \<and> (if m (k + 1) then k + 1 else r) \<le> k + 1
              \<and> m (if m (k + 1) then k + 1 else r)
              \<and> (\<forall>i\<in>{(if m (k + 1) then k + 1 else r) + 1..k + 1}. \<not> m i)
         else (if m (k + 1) then k + 1 else r) = 0"
proof (cases "m (k + 1)")
  case True
  have "k + 1 \<in> {1..k + 1}" using k by simp
  with True have ex: "\<exists>i\<in>{1..k + 1}. m i" by blast
  have "{k + 1 + 1..k + 1} = {}" by simp
  then have "\<forall>i\<in>{k + 1 + 1..k + 1}. \<not> m i" by blast
  with ex True k show ?thesis by simp
next
  case False
  note nm = False
  have split: "i \<in> {a..k + 1} \<longleftrightarrow> i \<in> {a..k} \<or> (i = k + 1 \<and> a \<le> k + 1)" for i a :: int
    by auto
  show ?thesis
  proof (cases "\<exists>i\<in>{1..k}. m i")
    case True
    with IH have ih: "1 \<le> r" "r \<le> k" "m r" "\<forall>i\<in>{r + 1..k}. \<not> m i" by simp_all
    from True have ex: "\<exists>i\<in>{1..k + 1}. m i" using split[of _ 1] by blast
    have "\<forall>i\<in>{r + 1..k + 1}. \<not> m i"
    proof
      fix i assume "i \<in> {r + 1..k + 1}"
      then have "i \<in> {r + 1..k} \<or> i = k + 1" using split[of i "r + 1"] by blast
      then show "\<not> m i" using ih(4) nm by blast
    qed
    with ex ih nm show ?thesis by simp
  next
    case False
    with IH have r0: "r = 0" by simp
    have "\<not> (\<exists>i\<in>{1..k + 1}. m i)"
    proof
      assume "\<exists>i\<in>{1..k + 1}. m i"
      then obtain i where "i \<in> {1..k + 1}" "m i" by blast
      then have "i \<in> {1..k} \<or> i = k + 1" using split[of i 1] by blast
      with \<open>m i\<close> False nm show False by blast
    qed
    with r0 nm show ?thesis by simp
  qed
qed


lemma fold_freq_axis_step:
  "if \<exists>i\<in>{1..int k}. axis_label_matches header i
   then 1 \<le> fold (freq_axis_step header) [1..int k] 0
        \<and> fold (freq_axis_step header) [1..int k] 0 \<le> int k
        \<and> axis_label_matches header (fold (freq_axis_step header) [1..int k] 0)
        \<and> (\<forall>i\<in>{fold (freq_axis_step header) [1..int k] 0 + 1..int k}.
              \<not> axis_label_matches header i)
   else fold (freq_axis_step header) [1..int k] 0 = 0"
proof (induction k)
  case 0
  show ?case by simp
next
  case (Suc k)
  let ?m = "axis_label_matches header"
  let ?r = "fold (freq_axis_step header) [1..int k] 0"
  have n: "int (Suc k) = int k + 1" by simp
  have up: "[1..int k + 1] = [1..int k] @ [int k + 1]"
    using upto_rec2[of 1 "int k + 1"] by simp
  have "fold (freq_axis_step header) [1..int k + 1] 0
          = fold (freq_axis_step header) ([1..int k] @ [int k + 1]) 0"
    by (simp only: up)
  also have "\<dots> = freq_axis_step header (int k + 1) ?r" by simp
  finally have r': "fold (freq_axis_step header) [1..int k + 1] 0
            = (if ?m (int k + 1) then int k + 1 else ?r)"
    by (simp only: freq_axis_step_eq)
  have k0: "0 \<le> int k" by simp
  show ?case unfolding n r' by (rule last_match_step[OF k0 Suc.IH])
qed

text \<open>
  C3. Frequency-axis detection: on a header whose \<^verbatim>\<open>NAXIS\<close> is the integer \<open>n\<close>,
  \<^verbatim>\<open>find_freq_axis\<close> returns without an error, whatever type labels are present,
  absent or not strings. When some axis in \<open>1..n\<close> has a label whose upper-cased text
  contains \<open>FREQ\<close>, the result is such an axis and no axis after it matches (the last
  match); when none does, the result is 0.
\<close>

theorem find_freq_axis_last_match:
  assumes "header_get header ''NAXIS'' = Inr (HInt n)"
  shows "\<exists>r. find_freq_axis header = Inr r
           \<and> (if \<exists>i\<in>{1..n}. axis_label_matches header i
               then 1 \<le> r \<and> r \<le> n \<and> axis_label_matches header r
                    \<and> (\<forall>i\<in>{r + 1..n}. \<not> axis_label_matches header i)
               else r = 0)"
proof -
  have eq: "find_freq_axis header = Inr (fold (freq_axis_step header) [1..n] 0)"
    using assms by (simp add: find_freq_axis_def)
  show ?thesis
  proof (cases "0 \<le> n")
    case True
    then have n: "int (nat n) = n" by simp
    show ?thesis unfolding eq using fold_freq_axis_step[where k="nat n" and header=header] unfolding n by blast
  next
    case False
    then have "[1..n] = []" "{1..n} = {}" by simp_all
    then show ?thesis unfolding eq by simp
  qed
qed

theorem find_freq_axis_last_match_witness:
  "header_get [(''NAXIS'', HInt 3), (''CTYPE1'', HStr ''RA''), (''CTYPE2'', HStr ''DEC''),
               (''CTYPE3'', HStr ''FREQ'')] ''NAXIS'' = Inr (HInt 3)
   \<and> find_freq_axis [(''NAXIS'', HInt 3), (''CTYPE1'', HStr ''RA''), (''CTYPE2'', HStr ''DEC''),
                      (''CTYPE3'', HStr ''FREQ'')] = Inr 3"
proof -
  let ?h = "[(''NAXIS'', HInt 3), (''CTYPE1'', HStr ''RA''), (''CTYPE2'', HStr ''DEC''),
             (''CTYPE3'', HStr ''FREQ'')]"
  have n: "header_get ?h ''NAXIS'' = Inr (HInt 3)" by code_simp
  have m3: "axis_label_matches ?h 3" by code_simp
  then have ex: "\<exists>i\<in>{1..3}. axis_label_matches ?h i" by force
  from find_freq_axis_last_match[OF n] ex obtain r where
    r: "find_freq_axis ?h = Inr r" "r \<le> 3" "\<forall>i\<in>{r + 1..3}. \<not> axis_label_matches ?h i"
    by auto
  have "r = 3"
  proof (rule ccontr)
    assume "r \<noteq> 3"
    with r(2) have "3 \<in> {r + 1..3}" by simp
    with r(3) m3 show False by blast
  qed
  with r(1) n show ?thesis by simp
qed

text \<open>
  Two headers run through the loop: with two matching labels the later axis wins, and
  an axis without a label is passed over.
\<close>

lemma find_freq_axis_two_matches:
  "find_freq_axis [(''NAXIS'', HInt 4), (''CTYPE1'', HStr ''Frequency''),
                   (''CTYPE2'', HStr ''DEC''), (''CTYPE4'', HStr ''obsfreq'')] = Inr 4"
  by code_simp

lemma find_freq_axis_no_match:
  "find_freq_axis [(''NAXIS'', HInt 3), (''CTYPE1'', HStr ''RA''), (''CTYPE2'', HStr ''DEC'')]
     = Inr 0"
  by code_simp

section \<open>Broadcasting\<close>

text \<open>Two arrays of one shape broadcast to that shape, and every index reads both at itself.\<close>

lemma map2_same: "map2 f xs xs = map (\<lambda>x. f x x) xs"
  by (induction xs) simp_all

lemma broadcast_shapes_same: "broadcast_shapes s s = Inr s"
proof -
  have "list_all2 (\<lambda>a b. a = b \<or> a = 1 \<or> b = 1) s s"
    by (simp add: list_all2_conv_all_nth)
  moreover have "map2 (\<lambda>a b. if a = 1 then b else a) s s = s"
    by (simp add: map2_same)
  ultimately show ?thesis by (simp add: broadcast_shapes_def)
qed

lemma broadcast_index_same: "valid_index s j \<Longrightarrow> broadcast_index s j = j"
proof -
  assume v: "valid_index s j"
  then have len: "length j = length s" by (rule valid_index_length)
  have "map2 (\<lambda>n i. if n = 1 then 0 else i) s j = j"
  proof (rule nth_equalityI)
    show "length (map2 (\<lambda>n i. if n = 1 then 0 else i) s j) = length j" using len by simp
  next
    fix k assume "k < length (map2 (\<lambda>n i. if n = 1 then 0 else i) s j)"
    then have k: "k < length s" using len by simp
    with valid_index_nth[OF v k] len
    show "map2 (\<lambda>n i. if n = 1 then 0 else i) s j ! k = j ! k" by auto
  qed
  then show ?thesis using len by (simp add: broadcast_index_def)
qed

text \<open>A cube of shape \<open>n # rest\<close> and a modulation reshaped to \<open>n\<close> followed by ones broadcast to the shape of the cube; the modulation is read at the first component of the index.\<close>

lemma map2_replicate_one:
  "length rest = k \<Longrightarrow> map2 (\<lambda>a b. if a = 1 then b else a) rest (replicate k (1::nat)) = rest"
  by (induction rest arbitrary: k) auto

lemma list_all2_replicate_one:
  "length rest = k \<Longrightarrow> list_all2 (\<lambda>a b. a = b \<or> a = 1 \<or> b = 1) rest (replicate k (1::nat))"
  by (simp add: list_all2_conv_all_nth)

lemma broadcast_shapes_channel:
  "broadcast_shapes (n # rest) (n # replicate (length rest) 1) = Inr (n # rest)"
  using map2_replicate_one[of rest "length rest"] list_all2_replicate_one[of rest "length rest"]
  by (simp add: broadcast_shapes_def)

lemma map2_pin_ones:
  "length js = k \<Longrightarrow> map2 (\<lambda>n i. if n = 1 then 0 else i) (replicate k (1::nat)) js = replicate k (0::nat)"
  by (induction js arbitrary: k) auto

lemma broadcast_index_channel:
  assumes "valid_index (n # rest) j"
  shows "broadcast_index (n # replicate (length rest) 1) j = hd j # replicate (length rest) 0"
proof -
  from assms obtain i js where j: "j = i # js" and i: "i < n" and js: "length js = length rest"
    by (cases j) (auto simp: valid_index_def dest: list_all2_lengthD)
  have "(if n = 1 then 0 else i) = i" using i by simp
  then show ?thesis using j js map2_pin_ones[of js "length rest"]
    by (simp add: broadcast_index_def)
qed

lemma offset_channel: "offset (n # replicate k 1) (i # replicate k 0) = i"
proof -
  have "offset (replicate k 1) (replicate k 0) = 0" by (induction k) simp_all
  then show ?thesis by simp
qed

lemma get_map_nd:
  "well_formed a \<Longrightarrow> valid_index (shape a) idx \<Longrightarrow> get (map_nd f a) idx = f (get a idx)"
  using offset_less[of "shape a" idx] by (simp add: get_def map_nd_def well_formed_def)

lemma shape_map_nd [simp]: "shape (map_nd f a) = shape a"
  by (simp add: map_nd_def)

lemma well_formed_map_nd: "well_formed (map_nd f a) = well_formed a"
  by (simp add: well_formed_def map_nd_def)

lemma complex_polarization_same_shape:
  assumes "shape Qdata = shape Udata"
  shows "complex_polarization ar Qdata Udata =
           Inr \<lparr> shape = shape Qdata,
                 data = map (\<lambda>j. cadd ar (get (map_nd (cplx ar) Qdata) (broadcast_index (shape Qdata) j))
                                   (get (map_nd (\<lambda>u. cmul ar (imag_unit ar) (cplx ar u)) Udata)
                                        (broadcast_index (shape Qdata) j)))
                            (indices (shape Qdata)) \<rparr>"
  using assms by (simp add: complex_polarization_def broadcast2_def broadcast_shapes_same)

lemma get_complex_polarization:
  assumes "shape Qdata = shape Udata" "well_formed Qdata" "well_formed Udata"
    and "complex_polarization ar Qdata Udata = Inr Pdata" "valid_index (shape Qdata) idx"
  shows "get Pdata idx = cadd ar (cplx ar (get Qdata idx))
                                 (cmul ar (imag_unit ar) (cplx ar (get Udata idx)))"
proof -
  from assms(4) complex_polarization_same_shape[OF assms(1), of ar]
  have P: "Pdata = \<lparr> shape = shape Qdata,
                 data = map (\<lambda>j. cadd ar (get (map_nd (cplx ar) Qdata) (broadcast_index (shape Qdata) j))
                                   (get (map_nd (\<lambda>u. cmul ar (imag_unit ar) (cplx ar u)) Udata)
                                        (broadcast_index (shape Qdata) j)))
                            (indices (shape Qdata)) \<rparr>" by simp
  have "get Pdata idx = cadd ar (get (map_nd (cplx ar) Qdata) (broadcast_index (shape Qdata) idx))
                                   (get (map_nd (\<lambda>u. cmul ar (imag_unit ar) (cplx ar u)) Udata)
                                        (broadcast_index (shape Qdata) idx))"
    unfolding P using assms(5) by (rule get_build)
  also have "broadcast_index (shape Qdata) idx = idx" using assms(5) by (rule broadcast_index_same)
  finally show ?thesis
    using assms by (simp add: get_map_nd)
qed

lemma correction_shape_cube:
  "correction_shape (n # rest) m = Inr (m # replicate (length rest) 1)"
  by (simp add: correction_shape_def)

lemma prod_list_replicate_one: "prod_list (replicate k (1::nat)) = 1"
  by (induction k) simp_all

lemma reshape_channel:
  "size_of theta = m \<Longrightarrow>
     reshape theta (m # replicate k 1) = Inr \<lparr> shape = m # replicate k 1, data = data theta \<rparr>"
  using prod_list_replicate_one[of k] by (simp add: reshape_def)

lemma correct_cubes_result:
  assumes "shape Qdata = shape Udata" "shape Qdata = n # rest" "size_of theta = n"
  shows "\<exists>Pdata Pcorr.
           complex_polarization ar Qdata Udata = Inr Pdata \<and> shape Pdata = n # rest
           \<and> shape Pcorr = n # rest
           \<and> data Pcorr = map (\<lambda>j. cdiv ar (get Pdata (broadcast_index (n # rest) j))
                  (get \<lparr> shape = n # replicate (length rest) 1, data = data theta \<rparr>
                       (broadcast_index (n # replicate (length rest) 1) j)))
                (indices (n # rest))
           \<and> correct_cubes ar Qdata Udata theta
               = Inr (map_nd (creal ar) Pcorr, map_nd (cimag ar) Pcorr)"
proof -
  from complex_polarization_same_shape[OF assms(1), of ar] obtain Pdata where
    P: "complex_polarization ar Qdata Udata = Inr Pdata" "shape Pdata = n # rest"
    using assms(2) by simp
  let ?tb = "\<lparr> shape = n # replicate (length rest) 1, data = data theta \<rparr>"
  let ?Pcorr = "\<lparr> shape = n # rest,
                  data = map (\<lambda>j. cdiv ar (get Pdata (broadcast_index (n # rest) j))
                  (get ?tb (broadcast_index (n # replicate (length rest) 1) j)))
                (indices (n # rest)) \<rparr>"
  have b: "broadcast2 (cdiv ar) Pdata ?tb = Inr ?Pcorr"
    using P(2) broadcast_shapes_channel[of n rest] by (simp add: broadcast2_def)
  have "correct_cubes ar Qdata Udata theta
               = Inr (map_nd (creal ar) ?Pcorr, map_nd (cimag ar) ?Pcorr)"
    using P b assms(3) correction_shape_cube[of n rest n] reshape_channel[of theta n "length rest"]
    by (simp add: correct_cubes_def)
  with P show ?thesis by (intro exI[of _ Pdata] exI[of _ ?Pcorr]) simp
qed

section \<open>The correction engine\<close>

text \<open>
  C7. Shape preservation: for cubes Q and U of one shape with at least one axis, and a
  modulation whose element count is the length of axis 0, \<^verbatim>\<open>correct_cubes\<close> returns
  without an error and both results have the shape of Q and U.
\<close>

theorem correct_cubes_shape:
  assumes "shape Qdata = shape Udata" and "shape Qdata = n # rest" and "size_of theta = n"
  shows "\<exists>Qcorr Ucorr. correct_cubes ar Qdata Udata theta = Inr (Qcorr, Ucorr)
           \<and> shape Qcorr = shape Qdata \<and> shape Ucorr = shape Udata"
proof -
  from correct_cubes_result[OF assms, of ar] obtain Pcorr where
    "shape Pcorr = n # rest"
    "correct_cubes ar Qdata Udata theta = Inr (map_nd (creal ar) Pcorr, map_nd (cimag ar) Pcorr)"
    by blast
  then show ?thesis using assms(1,2) by simp
qed

theorem correct_cubes_shape_witness:
  "shape \<lparr>shape = [3, 2], data = [1, 2, 3, 4, 5, 6 :: real]\<rparr>
     = shape \<lparr>shape = [3, 2], data = [6, 5, 4, 3, 2, 1 :: real]\<rparr>
   \<and> shape \<lparr>shape = [3, 2], data = [1, 2, 3, 4, 5, 6 :: real]\<rparr> = 3 # [2]
   \<and> size_of \<lparr>shape = [3], data = [1, \<i>, 2]\<rparr> = 3
   \<and> (\<exists>Qcorr Ucorr.
         correct_cubes exact_arith \<lparr>shape = [3, 2], data = [1, 2, 3, 4, 5, 6]\<rparr>
             \<lparr>shape = [3, 2], data = [6, 5, 4, 3, 2, 1]\<rparr> \<lparr>shape = [3], data = [1, \<i>, 2]\<rparr>
           = Inr (Qcorr, Ucorr)
         \<and> shape Qcorr = [3, 2] \<and> shape Ucorr = [3, 2])"
proof -
  let ?Q = "\<lparr>shape = [3, 2], data = [1, 2, 3, 4, 5, 6 :: real]\<rparr>"
  let ?U = "\<lparr>shape = [3, 2], data = [6, 5, 4, 3, 2, 1 :: real]\<rparr>"
  let ?t = "\<lparr>shape = [3], data = [1, \<i>, 2]\<rparr>"
  have a: "shape ?Q = shape ?U" by simp
  have b: "shape ?Q = 3 # [2]" by simp
  have c: "size_of ?t = 3" by (simp add: size_of_def)
  from correct_cubes_shape[OF a b c, of exact_arith] a b c show ?thesis by simp
qed

text \<open>Every element of the two results, for cubes of one shape and a 1-d modulation.\<close>

lemma correct_cubes_elements:
  assumes "well_formed Qdata" and "well_formed Udata" and "shape Qdata = shape Udata"
    and "shape Qdata = n # rest" and "shape theta = [n]"
  shows "\<exists>Qcorr Ucorr. correct_cubes ar Qdata Udata theta = Inr (Qcorr, Ucorr)
              \<and> shape Qcorr = shape Qdata \<and> shape Ucorr = shape Qdata
              \<and> (\<forall>idx. valid_index (shape Qdata) idx \<longrightarrow>
                    get Qcorr idx
                      = creal ar (cdiv ar (cadd ar (cplx ar (get Qdata idx))
                                                  (cmul ar (imag_unit ar) (cplx ar (get Udata idx))))
                                          (get theta [hd idx]))
                  \<and> get Ucorr idx
                      = cimag ar (cdiv ar (cadd ar (cplx ar (get Qdata idx))
                                                  (cmul ar (imag_unit ar) (cplx ar (get Udata idx))))
                                          (get theta [hd idx])))"
proof -
  have sz: "size_of theta = n" using assms(5) by (simp add: size_of_def)
  from correct_cubes_result[OF assms(3,4) sz, of ar] obtain Pdata Pcorr where
    P: "complex_polarization ar Qdata Udata = Inr Pdata"
    and shP: "shape Pcorr = n # rest"
    and dP: "data Pcorr = map (\<lambda>j. cdiv ar (get Pdata (broadcast_index (n # rest) j))
                  (get \<lparr> shape = n # replicate (length rest) 1, data = data theta \<rparr>
                       (broadcast_index (n # replicate (length rest) 1) j)))
                (indices (n # rest))"
    and res: "correct_cubes ar Qdata Udata theta
               = Inr (map_nd (creal ar) Pcorr, map_nd (cimag ar) Pcorr)"
    by blast
  have wfP: "well_formed Pcorr" by (simp add: well_formed_def shP dP length_indices)
  have Pc: "Pcorr = \<lparr> shape = n # rest,
                data = map (\<lambda>j. cdiv ar (get Pdata (broadcast_index (n # rest) j))
                  (get \<lparr> shape = n # replicate (length rest) 1, data = data theta \<rparr>
                       (broadcast_index (n # replicate (length rest) 1) j)))
                (indices (n # rest)) \<rparr>"
    using shP dP by (cases Pcorr) simp
  have el: "get Pcorr idx = cdiv ar (cadd ar (cplx ar (get Qdata idx))
                                                  (cmul ar (imag_unit ar) (cplx ar (get Udata idx))))
                                          (get theta [hd idx])"
    if v: "valid_index (shape Qdata) idx" for idx
  proof -
    have v': "valid_index (n # rest) idx" using v assms(4) by simp
    have "get Pcorr idx = cdiv ar (get Pdata (broadcast_index (n # rest) idx))
                  (get \<lparr> shape = n # replicate (length rest) 1, data = data theta \<rparr>
                       (broadcast_index (n # replicate (length rest) 1) idx))"
      by (subst Pc) (rule get_build[OF v'])
    also have "broadcast_index (n # rest) idx = idx" using v' by (rule broadcast_index_same)
    also have "broadcast_index (n # replicate (length rest) 1) idx = hd idx # replicate (length rest) 0"
      using v' by (rule broadcast_index_channel)
    also have "get \<lparr> shape = n # replicate (length rest) 1, data = data theta \<rparr>
                 (hd idx # replicate (length rest) 0) = get theta [hd idx]"
      using assms(5) offset_channel[of n "length rest" "hd idx"] by (simp add: get_def)
    also have "get Pdata idx = cadd ar (cplx ar (get Qdata idx))
                                 (cmul ar (imag_unit ar) (cplx ar (get Udata idx)))"
      using assms(3,1,2) P v by (rule get_complex_polarization)
    finally show ?thesis .
  qed
  have "\<forall>idx. valid_index (shape Qdata) idx \<longrightarrow>
           get (map_nd (creal ar) Pcorr) idx
             = creal ar (cdiv ar (cadd ar (cplx ar (get Qdata idx))
                                         (cmul ar (imag_unit ar) (cplx ar (get Udata idx))))
                                 (get theta [hd idx]))
         \<and> get (map_nd (cimag ar) Pcorr) idx
             = cimag ar (cdiv ar (cadd ar (cplx ar (get Qdata idx))
                                         (cmul ar (imag_unit ar) (cplx ar (get Udata idx))))
                                 (get theta [hd idx]))"
  proof (intro allI impI)
    fix idx assume v: "valid_index (shape Qdata) idx"
    then have "valid_index (shape Pcorr) idx" using shP assms(4) by simp
    then show "get (map_nd (creal ar) Pcorr) idx
             = creal ar (cdiv ar (cadd ar (cplx ar (get Qdata idx))
                                         (cmul ar (imag_unit ar) (cplx ar (get Udata idx))))
                                 (get theta [hd idx]))
         \<and> get (map_nd (cimag ar) Pcorr) idx
             = cimag ar (cdiv ar (cadd ar (cplx ar (get Qdata idx))
                                         (cmul ar (imag_unit ar) (cplx ar (get Udata idx))))
                                 (get theta [hd idx]))"
      using wfP el[OF v] by (simp add: get_map_nd)
  qed
  moreover have "shape (map_nd (creal ar) Pcorr) = shape Qdata"
    "shape (map_nd (cimag ar) Pcorr) = shape Qdata" using shP assms(4) by simp_all
  ultimately show ?thesis using res by blast
qed


text \<open>
  C2. Elementwise correctness: for well-formed cubes Q and U of one shape \<open>n # rest\<close>
  and a 1-d modulation of length \<open>n\<close>, the modulation is reshaped to length \<open>n\<close> on
  axis 0 and length 1 on every other axis of Q; \<^verbatim>\<open>correct_cubes\<close> returns without an
  error, the results have the shape of Q, and at every index the results are the real
  and the imaginary part of \<open>(Q + i*U) / theta\<close>, with \<open>theta\<close> taken at the index's
  component on axis 0. The witness is the example of the specification: \<open>Q = [1, 0]\<close>,
  \<open>U = [0, 1]\<close>, \<open>theta = [1, i]\<close> on a cube of 2 channels and 1 by 1 pixels give
  \<open>[1, 1]\<close> and \<open>[0, 0]\<close>.
\<close>

theorem correct_cubes_elementwise:
  assumes "well_formed Qdata" and "well_formed Udata" and "shape Qdata = shape Udata"
    and "shape Qdata = n # rest" and "shape theta = [n]"
  shows "correction_shape (shape Qdata) (size_of theta)
           = Inr (size_of theta # replicate (ndim Qdata - 1) 1)
         \<and> (\<exists>Qcorr Ucorr. correct_cubes ar Qdata Udata theta = Inr (Qcorr, Ucorr)
              \<and> shape Qcorr = shape Qdata \<and> shape Ucorr = shape Qdata
              \<and> (\<forall>idx. valid_index (shape Qdata) idx \<longrightarrow>
                    get Qcorr idx
                      = creal ar (cdiv ar (cadd ar (cplx ar (get Qdata idx))
                                                  (cmul ar (imag_unit ar) (cplx ar (get Udata idx))))
                                          (get theta [hd idx]))
                  \<and> get Ucorr idx
                      = cimag ar (cdiv ar (cadd ar (cplx ar (get Qdata idx))
                                                  (cmul ar (imag_unit ar) (cplx ar (get Udata idx))))
                                          (get theta [hd idx]))))"
proof -
  have "correction_shape (shape Qdata) (size_of theta)
              = Inr (size_of theta # replicate (ndim Qdata - 1) 1)"
    using assms(4) by (simp add: correction_shape_cube ndim_def)
  moreover from correct_cubes_elements[OF assms, of ar] obtain Qcorr Ucorr where
    "correct_cubes ar Qdata Udata theta = Inr (Qcorr, Ucorr)"
    "shape Qcorr = shape Qdata" "shape Ucorr = shape Qdata"
    "\<forall>idx. valid_index (shape Qdata) idx \<longrightarrow>
        get Qcorr idx
          = creal ar (cdiv ar (cadd ar (cplx ar (get Qdata idx))
                                      (cmul ar (imag_unit ar) (cplx ar (get Udata idx))))
                              (get theta [hd idx]))
      \<and> get Ucorr idx
          = cimag ar (cdiv ar (cadd ar (cplx ar (get Qdata idx))
                                      (cmul ar (imag_unit ar) (cplx ar (get Udata idx))))
                              (get theta [hd idx]))"
    by blast
  ultimately show ?thesis by blast
qed

theorem correct_cubes_elementwise_witness:
  "well_formed \<lparr>shape = [2, 1, 1], data = [1, 0 :: real]\<rparr>
   \<and> well_formed \<lparr>shape = [2, 1, 1], data = [0, 1 :: real]\<rparr>
   \<and> shape \<lparr>shape = [2], data = [1, \<i>]\<rparr> = [2]
   \<and> valid_index [2, 1, 1] [1, 0, 0]
   \<and> correct_cubes exact_arith \<lparr>shape = [2, 1, 1], data = [1, 0]\<rparr>
         \<lparr>shape = [2, 1, 1], data = [0, 1]\<rparr> \<lparr>shape = [2], data = [1, \<i>]\<rparr>
       = Inr (\<lparr>shape = [2, 1, 1], data = [1, 1]\<rparr>, \<lparr>shape = [2, 1, 1], data = [0, 0]\<rparr>)
   \<and> get \<lparr>shape = [2, 1, 1], data = [1, 1 :: real]\<rparr> [1, 0, 0] = Re ((0 + \<i> * 1) / \<i>)
   \<and> get \<lparr>shape = [2, 1, 1], data = [0, 0 :: real]\<rparr> [1, 0, 0] = Im ((0 + \<i> * 1) / \<i>)"
proof -
  let ?Q = "\<lparr>shape = [2, 1, 1], data = [1, 0 :: real]\<rparr>"
  let ?U = "\<lparr>shape = [2, 1, 1], data = [0, 1 :: real]\<rparr>"
  let ?t = "\<lparr>shape = [2], data = [1, \<i>]\<rparr>"
  have wq: "well_formed ?Q" and wu: "well_formed ?U" by (simp_all add: well_formed_def)
  have s: "shape ?Q = shape ?U" and sq: "shape ?Q = 2 # [1, 1]" and st: "shape ?t = [2]"
    by simp_all
  have v: "valid_index (shape ?Q) [1, 0, 0]" by (simp add: valid_index_def)
  have ev: "correct_cubes exact_arith ?Q ?U ?t
       = Inr (\<lparr>shape = [2, 1, 1], data = [1, 1]\<rparr>, \<lparr>shape = [2, 1, 1], data = [0, 0]\<rparr>)"
    by code_simp
  from correct_cubes_elementwise[OF wq wu s sq st, of exact_arith] obtain Qcorr Ucorr where
    r: "correct_cubes exact_arith ?Q ?U ?t = Inr (Qcorr, Ucorr)"
    and e: "\<forall>idx. valid_index (shape ?Q) idx \<longrightarrow>
              get Qcorr idx
                = creal exact_arith (cdiv exact_arith
                    (cadd exact_arith (cplx exact_arith (get ?Q idx))
                       (cmul exact_arith (imag_unit exact_arith) (cplx exact_arith (get ?U idx))))
                    (get ?t [hd idx]))
            \<and> get Ucorr idx
                = cimag exact_arith (cdiv exact_arith
                    (cadd exact_arith (cplx exact_arith (get ?Q idx))
                       (cmul exact_arith (imag_unit exact_arith) (cplx exact_arith (get ?U idx))))
                    (get ?t [hd idx]))"
    by blast
  from r ev have q: "Qcorr = \<lparr>shape = [2, 1, 1], data = [1, 1]\<rparr>"
    and u: "Ucorr = \<lparr>shape = [2, 1, 1], data = [0, 0]\<rparr>" by simp_all
  from e v have
    "get Qcorr [1, 0, 0]
       = creal exact_arith (cdiv exact_arith
           (cadd exact_arith (cplx exact_arith (get ?Q [1, 0, 0]))
              (cmul exact_arith (imag_unit exact_arith) (cplx exact_arith (get ?U [1, 0, 0]))))
           (get ?t [hd [1, 0, 0]]))"
    "get Ucorr [1, 0, 0]
       = cimag exact_arith (cdiv exact_arith
           (cadd exact_arith (cplx exact_arith (get ?Q [1, 0, 0]))
              (cmul exact_arith (imag_unit exact_arith) (cplx exact_arith (get ?U [1, 0, 0]))))
           (get ?t [hd [1, 0, 0]]))"
    by blast+
  then have "get Qcorr [1, 0, 0] = Re ((0 + \<i> * 1) / \<i>)"
    "get Ucorr [1, 0, 0] = Im ((0 + \<i> * 1) / \<i>)"
    by (simp_all add: exact_arith_def get_def)
  with q u ev wq wu st v show ?thesis by simp
qed

text \<open>
  C6. Zero modulation is not an error. Let \<open>z\<close> be the modulation of channel \<open>i\<close>, and
  let the division by \<open>z\<close> have parts that are not finite (the standard semantics of
  the division by zero; what "not finite" means is a parameter, like the arithmetic).
  Then \<^verbatim>\<open>correct_cubes\<close> returns without an error, and every element of channel \<open>i\<close>
  of both results is the part of the quotient by \<open>z\<close> itself, hence not finite:
  nothing is clamped or substituted.
\<close>

theorem zero_modulation_not_an_error:
  assumes "well_formed Qdata" and "well_formed Udata" and "shape Qdata = shape Udata"
    and "shape Qdata = n # rest" and "shape theta = [n]"
    and "i < n" and "get theta [i] = z"
    and "\<forall>p. nonfinite (creal ar (cdiv ar p z)) \<and> nonfinite (cimag ar (cdiv ar p z))"
  shows "\<exists>Qcorr Ucorr. correct_cubes ar Qdata Udata theta = Inr (Qcorr, Ucorr)
           \<and> (\<forall>idx. valid_index (shape Qdata) idx \<and> hd idx = i \<longrightarrow>
                 get Qcorr idx
                   = creal ar (cdiv ar (cadd ar (cplx ar (get Qdata idx))
                                               (cmul ar (imag_unit ar) (cplx ar (get Udata idx))))
                                       z)
               \<and> get Ucorr idx
                   = cimag ar (cdiv ar (cadd ar (cplx ar (get Qdata idx))
                                               (cmul ar (imag_unit ar) (cplx ar (get Udata idx))))
                                       z)
               \<and> nonfinite (get Qcorr idx) \<and> nonfinite (get Ucorr idx))"
proof -
  from correct_cubes_elements[OF assms(1-5), of ar] obtain Qcorr Ucorr where
    r: "correct_cubes ar Qdata Udata theta = Inr (Qcorr, Ucorr)"
    and e: "\<forall>idx. valid_index (shape Qdata) idx \<longrightarrow>
        get Qcorr idx
          = creal ar (cdiv ar (cadd ar (cplx ar (get Qdata idx))
                                      (cmul ar (imag_unit ar) (cplx ar (get Udata idx))))
                              (get theta [hd idx]))
      \<and> get Ucorr idx
          = cimag ar (cdiv ar (cadd ar (cplx ar (get Qdata idx))
                                      (cmul ar (imag_unit ar) (cplx ar (get Udata idx))))
                              (get theta [hd idx]))"
    by blast
  have "get Qcorr idx
          = creal ar (cdiv ar (cadd ar (cplx ar (get Qdata idx))
                                      (cmul ar (imag_unit ar) (cplx ar (get Udata idx)))) z)
      \<and> get Ucorr idx
          = cimag ar (cdiv ar (cadd ar (cplx ar (get Qdata idx))
                                      (cmul ar (imag_unit ar) (cplx ar (get Udata idx)))) z)
      \<and> nonfinite (get Qcorr idx) \<and> nonfinite (get Ucorr idx)"
    if v: "valid_index (shape Qdata) idx" and h: "hd idx = i" for idx
  proof -
    let ?P = "cadd ar (cplx ar (get Qdata idx)) (cmul ar (imag_unit ar) (cplx ar (get Udata idx)))"
    from e v have "get Qcorr idx = creal ar (cdiv ar ?P (get theta [hd idx]))"
      "get Ucorr idx = cimag ar (cdiv ar ?P (get theta [hd idx]))" by blast+
    then have q: "get Qcorr idx = creal ar (cdiv ar ?P z)"
      and u: "get Ucorr idx = cimag ar (cdiv ar ?P z)"
      using h assms(7) by simp_all
    from assms(8) have "nonfinite (creal ar (cdiv ar ?P z))" "nonfinite (cimag ar (cdiv ar ?P z))"
      by blast+
    with q u show ?thesis by simp
  qed
  with r show ?thesis by blast
qed

theorem zero_modulation_not_an_error_witness:
  "well_formed \<lparr>shape = [2, 1, 1], data = [Some 1, Some (2::real)]\<rparr>
   \<and> well_formed \<lparr>shape = [2, 1, 1], data = [Some 3, Some (4::real)]\<rparr>
   \<and> get \<lparr>shape = [2], data = [(Some 0, Some 0), (Some (1::real), Some (0::real))]\<rparr> [0]
       = (Some 0, Some 0)
   \<and> valid_index [2, 1, 1] [0, 0, 0]
   \<and> correct_cubes extended_arith \<lparr>shape = [2, 1, 1], data = [Some 1, Some 2]\<rparr>
         \<lparr>shape = [2, 1, 1], data = [Some 3, Some 4]\<rparr>
         \<lparr>shape = [2], data = [(Some 0, Some 0), (Some 1, Some 0)]\<rparr>
       = Inr (\<lparr>shape = [2, 1, 1], data = [None, Some 2]\<rparr>,
              \<lparr>shape = [2, 1, 1], data = [None, Some 4]\<rparr>)
   \<and> get \<lparr>shape = [2, 1, 1], data = [None, Some (2::real)]\<rparr> [0, 0, 0] = None
   \<and> get \<lparr>shape = [2, 1, 1], data = [None, Some (4::real)]\<rparr> [0, 0, 0] = None"
proof -
  let ?Q = "\<lparr>shape = [2, 1, 1], data = [Some 1, Some (2::real)]\<rparr>"
  let ?U = "\<lparr>shape = [2, 1, 1], data = [Some 3, Some (4::real)]\<rparr>"
  let ?t = "\<lparr>shape = [2], data = [(Some 0, Some 0), (Some (1::real), Some (0::real))]\<rparr>"
  let ?z = "(Some (0::real), Some (0::real))"
  have wq: "well_formed ?Q" and wu: "well_formed ?U" by (simp_all add: well_formed_def)
  have s: "shape ?Q = shape ?U" and sq: "shape ?Q = 2 # [1, 1]" and st: "shape ?t = [2]"
    by simp_all
  have i: "(0::nat) < 2" by simp
  have g: "get ?t [0] = ?z" by (simp add: get_def)
  have d: "\<forall>p. (\<lambda>x. x = None) (creal extended_arith (cdiv extended_arith p ?z))
             \<and> (\<lambda>x. x = None) (cimag extended_arith (cdiv extended_arith p ?z))"
    by (simp add: extended_arith_def xdiv_def split: option.splits)
  have v: "valid_index (shape ?Q) [0, 0, 0]" by (simp add: valid_index_def)
  have ev: "correct_cubes extended_arith ?Q ?U ?t
       = Inr (\<lparr>shape = [2, 1, 1], data = [None, Some 2]\<rparr>,
              \<lparr>shape = [2, 1, 1], data = [None, Some 4]\<rparr>)"
    by code_simp
  from zero_modulation_not_an_error[OF wq wu s sq st i g d] obtain Qcorr Ucorr where
    r: "correct_cubes extended_arith ?Q ?U ?t = Inr (Qcorr, Ucorr)"
    and e: "\<forall>idx. valid_index (shape ?Q) idx \<and> hd idx = 0 \<longrightarrow>
              get Qcorr idx = None \<and> get Ucorr idx = None"
    by blast
  from r ev have q: "Qcorr = \<lparr>shape = [2, 1, 1], data = [None, Some 2]\<rparr>"
    and u: "Ucorr = \<lparr>shape = [2, 1, 1], data = [None, Some 4]\<rparr>" by simp_all
  from e v have "get Qcorr [0, 0, 0] = None" "get Ucorr [0, 0, 0] = None" by simp_all
  with q u ev wq wu g v show ?thesis by simp
qed

section \<open>Writing the corrected cubes\<close>

lemma pf_writeto_headers: "headers (snd (pf_writeto name d h overwrite w)) = headers w"
  by (simp add: pf_writeto_def)


lemma pf_writeto_success:
  "fst (pf_writeto name d h overwrite w) = Inr u \<Longrightarrow>
     pf_writeto name d h overwrite w = (Inr (), w\<lparr> files := (files w)(name \<mapsto> FitsFile h d) \<rparr>)"
  by (auto simp: pf_writeto_def split: if_splits)



lemma write_corrected_cubes_unfold:
  "write_corrected_cubes Qoutputname Uoutputname Qcorr Ucorr header overwrite w =
     (case restored (annotated w header) Qcorr Ucorr of
        Inl e \<Rightarrow> (Inl e, staged w header)
      | Inr (Qnative, Unative) \<Rightarrow>
          (case pf_writeto Qoutputname Qnative (annotated w header) overwrite (staged w header) of
             (Inl e, w3) \<Rightarrow> (Inl e, w3)
           | (Inr u, w3) \<Rightarrow> pf_writeto Uoutputname Unative (annotated w header) overwrite w3))"
proof -
  have h: "headers (staged w header) ! length (headers w) = annotated w header"
    by (simp add: staged_def)
  have st: "(let (output_header, w1) = new_header (headers w ! header) w;
          w2 = w1\<lparr> headers := (headers w1)
                  [output_header := add_history (headers w1 ! output_header) history_note] \<rparr>
      in f output_header w2) = f (length (headers w)) (staged w header)" for f :: "nat \<Rightarrow> 'a world \<Rightarrow> 'b"
    by (simp add: new_header_def staged_def annotated_def Let_def)
  have hw: "headers w3 = headers (staged w header)"
    if "pf_writeto Qoutputname Qnative (annotated w header) overwrite (staged w header) = (x, w3)"
    for x w3 Qnative
    using pf_writeto_headers[of Qoutputname Qnative "annotated w header" overwrite "staged w header"] that
    by simp
  show ?thesis
    unfolding write_corrected_cubes_def st h restored_def
    by (auto split: sum.splits prod.splits simp: h dest!: hw)
qed

lemma files_staged [simp]: "files (staged w header) = files w"
  by (simp add: staged_def)

lemma headers_staged [simp]: "headers (staged w header) = headers w @ [annotated w header]"
  by (simp add: staged_def)

lemma occupied_staged [simp]: "occupied (staged w header) name = occupied w name"
  by (simp add: occupied_def)

lemma write_corrected_cubes_headers:
  "headers (snd (write_corrected_cubes Qoutputname Uoutputname Qcorr Ucorr header overwrite w))
     = headers w @ [annotated w header]"
proof (cases "restored (annotated w header) Qcorr Ucorr")
  case (Inl e)
  then show ?thesis by (simp add: write_corrected_cubes_unfold)
next
  case (Inr p)
  obtain Qnative Unative where p: "p = (Qnative, Unative)" by (cases p)
  let ?s = "staged w header"
  let ?h = "annotated w header"
  obtain x w3 where q: "pf_writeto Qoutputname Qnative ?h overwrite ?s = (x, w3)"
    by (cases "pf_writeto Qoutputname Qnative ?h overwrite ?s")
  have h3: "headers w3 = headers w @ [?h]"
    using pf_writeto_headers[of Qoutputname Qnative ?h overwrite ?s] q by simp
  show ?thesis
  proof (cases x)
    case (Inl e)
    then show ?thesis using Inr p q h3 by (simp add: write_corrected_cubes_unfold)
  next
    case (Inr u)
    then have "write_corrected_cubes Qoutputname Uoutputname Qcorr Ucorr header overwrite w
                 = pf_writeto Uoutputname Unative ?h overwrite w3"
      using \<open>restored ?h Qcorr Ucorr = Inr p\<close> p q by (simp add: write_corrected_cubes_unfold)
    then show ?thesis using pf_writeto_headers[of Uoutputname Unative ?h overwrite w3] h3 by simp
  qed
qed

text \<open>
  C10. Header frame condition: whatever \<^verbatim>\<open>write_corrected_cubes\<close> does, the header
  object passed by the caller holds afterwards what it held before; the history note is
  in a new object, the copy. The note contains the text \<open>Corrected for ionospheric
  Faraday rotation\<close>. When the call returns without an error, the Q file and the U file
  both carry that annotated copy as their header.
\<close>

theorem write_keeps_caller_header:
  assumes "header < length (headers w)"
  shows "headers (snd (write_corrected_cubes Qoutputname Uoutputname Qcorr Ucorr header overwrite w))
             ! header = headers w ! header
         \<and> headers (snd (write_corrected_cubes Qoutputname Uoutputname Qcorr Ucorr header overwrite w))
             ! length (headers w) = add_history (headers w ! header) history_note
         \<and> (''HISTORY'', HStr history_note) \<in> set (add_history (headers w ! header) history_note)
         \<and> sublist ''Corrected for ionospheric Faraday rotation'' history_note
         \<and> (fst (write_corrected_cubes Qoutputname Uoutputname Qcorr Ucorr header overwrite w) = Inr ()
              \<longrightarrow> (\<exists>Qnative Unative.
                     files (snd (write_corrected_cubes Qoutputname Uoutputname Qcorr Ucorr header
                                   overwrite w)) Qoutputname
                       = Some (FitsFile (add_history (headers w ! header) history_note) Qnative)
                   \<and> files (snd (write_corrected_cubes Qoutputname Uoutputname Qcorr Ucorr header
                                   overwrite w)) Uoutputname
                       = Some (FitsFile (add_history (headers w ! header) history_note) Unative)))"
proof -
  let ?r = "write_corrected_cubes Qoutputname Uoutputname Qcorr Ucorr header overwrite w"
  let ?h = "annotated w header"
  let ?s = "staged w header"
  have hs: "headers (snd ?r) = headers w @ [?h]" by (rule write_corrected_cubes_headers)
  have a: "headers (snd ?r) ! header = headers w ! header"
    using assms by (simp add: hs nth_append)
  have b: "headers (snd ?r) ! length (headers w) = ?h" by (simp add: hs)
  have c: "(''HISTORY'', HStr history_note) \<in> set ?h"
  proof -
    let ?p = "\<lambda>c :: string \<times> hvalue. fst c \<noteq> ''HISTORY''"
    let ?xs = "rev (headers w ! header)"
    show ?thesis
      by (cases "dropWhile ?p ?xs = []") (simp_all add: annotated_def add_history_def Let_def)
  qed
  have d: "sublist ''Corrected for ionospheric Faraday rotation'' history_note"
    by code_simp
  have e: "\<exists>Qnative Unative. files (snd ?r) Qoutputname = Some (FitsFile ?h Qnative)
              \<and> files (snd ?r) Uoutputname = Some (FitsFile ?h Unative)"
    if ok: "fst ?r = Inr ()"
  proof (cases "restored ?h Qcorr Ucorr")
    case (Inl e)
    then show ?thesis using ok by (simp add: write_corrected_cubes_unfold)
  next
    case (Inr p)
    obtain Qnative Unative where p: "p = (Qnative, Unative)" by (cases p)
    let ?s' = "?s\<lparr>files := (files ?s)(Qoutputname \<mapsto> FitsFile ?h Qnative)\<rparr>"
    obtain x w3 where q: "pf_writeto Qoutputname Qnative ?h overwrite ?s = (x, w3)"
      by (cases "pf_writeto Qoutputname Qnative ?h overwrite ?s")
    have "\<exists>u. x = Inr u"
      using ok Inr p q by (cases x) (simp_all add: write_corrected_cubes_unfold)
    then obtain u where x: "x = Inr u" by blast
    have w3: "w3 = ?s'"
      using pf_writeto_success[of Qoutputname Qnative ?h overwrite ?s u] q x by simp
    have r: "?r = pf_writeto Uoutputname Unative ?h overwrite ?s'"
      using Inr p q x w3 by (simp add: write_corrected_cubes_unfold)
    then have "fst (pf_writeto Uoutputname Unative ?h overwrite ?s') = Inr ()" using ok by simp
    from pf_writeto_success[OF this] r
    have "?r = (Inr (), ?s'\<lparr>files := (files ?s')(Uoutputname \<mapsto> FitsFile ?h Unative)\<rparr>)"
      by simp
    then show ?thesis by auto
  qed
  from a b c d e show ?thesis unfolding annotated_def by blast
qed

theorem write_keeps_caller_header_witness:
  "0 < length (headers example_world)
   \<and> fst (write_corrected_cubes ''Qout.fits'' ''Uout.fits'' example_Q example_U 0 False
            example_world) = Inr ()
   \<and> headers (snd (write_corrected_cubes ''Qout.fits'' ''Uout.fits'' example_Q example_U 0 False
                     example_world)) ! 0 = example_header
   \<and> (\<exists>Qnative Unative.
         files (snd (write_corrected_cubes ''Qout.fits'' ''Uout.fits'' example_Q example_U 0 False
                       example_world)) ''Qout.fits''
           = Some (FitsFile (add_history example_header history_note) Qnative)
       \<and> files (snd (write_corrected_cubes ''Qout.fits'' ''Uout.fits'' example_Q example_U 0 False
                       example_world)) ''Uout.fits''
           = Some (FitsFile (add_history example_header history_note) Unative))"
proof -
  have l: "0 < length (headers example_world)" by (simp add: example_world_def)
  have h: "headers example_world ! 0 = example_header" by (simp add: example_world_def)
  have ok: "fst (write_corrected_cubes ''Qout.fits'' ''Uout.fits'' example_Q example_U 0 False
                   example_world) = Inr ()"
    by code_simp
  from write_keeps_caller_header[OF l, of "''Qout.fits''" "''Uout.fits''" example_Q example_U False]
    ok l show ?thesis unfolding h by blast
qed




section \<open>Reading the prediction\<close>

lemma unpack3_three: "unpack3 [a, b, c] = Inr (a, b, c)"
  by (simp add: unpack3_def)

lemma unpack3_length: "length xs \<noteq> 3 \<Longrightarrow> unpack3 xs = Inl ValueError"
  by (auto simp: unpack3_def split: list.splits)

lemma upt_3: "[0..<3] = [0, 1, 2]"
  by code_simp

lemma iterate_axis0_three:
  "shape a = 3 # rest \<Longrightarrow>
     iterate_axis0 a =
       Inr [\<lparr>shape = rest, data = take (prod_list rest) (data a)\<rparr>,
            \<lparr>shape = rest, data = take (prod_list rest) (drop (prod_list rest) (data a))\<rparr>,
            \<lparr>shape = rest, data = take (prod_list rest) (drop (2 * prod_list rest) (data a))\<rparr>]"
  by (simp add: iterate_axis0_def upt_3)

lemma iterate_axis0_length:
  "shape a = n # rest \<Longrightarrow> \<exists>items. iterate_axis0 a = Inr items \<and> length items = n"
  by (simp add: iterate_axis0_def)

lemma complex_polarization_succeeds:
  "shape a = shape b \<Longrightarrow> \<exists>t. complex_polarization ar a b = Inr t \<and> shape t = shape a"
  by (simp add: complex_polarization_def broadcast2_def broadcast_shapes_same)

lemma read_prediction_of_table:
  assumes "genfromtxt_unpack nan w filename = Inr table"
  shows "(shape table = [] \<longrightarrow> read_prediction ar nan w filename = Inl TypeError)
       \<and> (\<forall>n rest. shape table = n # rest \<and> n \<noteq> 3 \<longrightarrow>
             read_prediction ar nan w filename = Inl ValueError)
       \<and> (\<forall>rest. shape table = 3 # rest \<longrightarrow>
             (\<exists>theta. complex_polarization ar
                   \<lparr>shape = rest, data = take (prod_list rest) (drop (prod_list rest) (data table))\<rparr>
                   \<lparr>shape = rest, data = take (prod_list rest) (drop (2 * prod_list rest) (data table))\<rparr>
                  = Inr theta
               \<and> shape theta = rest
               \<and> read_prediction ar nan w filename
                   = Inr (\<lparr>shape = rest, data = take (prod_list rest) (data table)\<rparr>, theta)))"
proof (intro conjI allI impI)
  assume "shape table = []"
  then show "read_prediction ar nan w filename = Inl TypeError"
    using assms by (simp add: read_prediction_def iterate_axis0_def)
next
  fix n rest assume a: "shape table = n # rest \<and> n \<noteq> 3"
  then obtain items where "iterate_axis0 table = Inr items" "length items = n"
    using iterate_axis0_length[of table n rest] by blast
  then show "read_prediction ar nan w filename = Inl ValueError"
    using assms a by (simp add: read_prediction_def unpack3_length)
next
  fix rest assume a: "shape table = 3 # rest"
  let ?re = "\<lparr>shape = rest, data = take (prod_list rest) (drop (prod_list rest) (data table))\<rparr>"
  let ?im = "\<lparr>shape = rest, data = take (prod_list rest) (drop (2 * prod_list rest) (data table))\<rparr>"
  from complex_polarization_succeeds[of ?re ?im ar] obtain theta where
    t: "complex_polarization ar ?re ?im = Inr theta" "shape theta = rest" by auto
  have "read_prediction ar nan w filename
          = Inr (\<lparr>shape = rest, data = take (prod_list rest) (data table)\<rparr>, theta)"
    using assms t(1) by (simp add: read_prediction_def iterate_axis0_three[OF a] unpack3_three)
  with t show "\<exists>theta. complex_polarization ar ?re ?im = Inr theta \<and> shape theta = rest
               \<and> read_prediction ar nan w filename
                   = Inr (\<lparr>shape = rest, data = take (prod_list rest) (data table)\<rparr>, theta)"
    by blast
qed

lemma shape_transpose_rev:
  "shape (transpose_nd a (rev [0..<ndim a])) = rev (shape a)"
proof -
  have "map (\<lambda>k. shape a ! k) (rev [0..<length (shape a)]) = rev (map (\<lambda>k. shape a ! k) [0..<length (shape a)])"
    by (simp add: rev_map)
  then show ?thesis by (simp add: ndim_def map_nth)
qed

lemma genfromtxt_table:
  assumes "files w filename = Some (TextFile lines)"
    and "filter (\<lambda>r. r \<noteq> []) lines = rows" and "rows \<noteq> []"
    and "\<forall>r \<in> set rows. length r = length (hd rows)"
  shows "genfromtxt_unpack nan w filename
           = Inr (transpose_nd (squeeze \<lparr>shape = [length rows, length (hd rows)],
                                        data = map (to_float nan) (concat rows)\<rparr>)
                    (rev [0..<ndim (squeeze \<lparr>shape = [length rows, length (hd rows)],
                                            data = map (to_float nan) (concat rows)\<rparr>)]))"
proof -
  have e: "(\<exists>r \<in> set rows. length r \<noteq> length (hd rows)) = False" using assms(4) by blast
  show ?thesis
    unfolding genfromtxt_unpack_def Let_def assms(1) stored_file.case option.case assms(2) e
    using assms(3) by simp
qed

lemma complex_polarization_zip:
  assumes "well_formed a" "well_formed b" "shape a = shape b"
  shows "complex_polarization ar a b =
           Inr \<lparr> shape = shape a,
                 data = map2 (\<lambda>x y. cadd ar (cplx ar x) (cmul ar (imag_unit ar) (cplx ar y)))
                             (data a) (data b) \<rparr>"
proof -
  let ?F = "\<lambda>x y. cadd ar (cplx ar x) (cmul ar (imag_unit ar) (cplx ar y))"
  let ?s = "shape a"
  have la: "length (data a) = prod_list ?s" and lb: "length (data b) = prod_list ?s"
    using assms by (simp_all add: well_formed_def)
  have "map (\<lambda>j. cadd ar (get (map_nd (cplx ar) a) (broadcast_index ?s j))
                   (get (map_nd (\<lambda>u. cmul ar (imag_unit ar) (cplx ar u)) b)
                        (broadcast_index ?s j))) (indices ?s)
        = map (\<lambda>j. ?F (get a j) (get b j)) (indices ?s)"
  proof (rule map_cong[OF refl])
    fix j assume "j \<in> set (indices ?s)"
    then have v: "valid_index ?s j" by (simp add: set_indices)
    then have vb: "valid_index (shape b) j" using assms(3) by simp
    show "cadd ar (get (map_nd (cplx ar) a) (broadcast_index ?s j))
                   (get (map_nd (\<lambda>u. cmul ar (imag_unit ar) (cplx ar u)) b)
                        (broadcast_index ?s j)) = ?F (get a j) (get b j)"
      using broadcast_index_same[OF v] get_map_nd[OF assms(1) v, of "cplx ar"]
        get_map_nd[OF assms(2) vb, of "\<lambda>u. cmul ar (imag_unit ar) (cplx ar u)"]
      by simp
  qed
  also have "\<dots> = map (\<lambda>k. ?F (data a ! k) (data b ! k)) (map (offset ?s) (indices ?s))"
    using assms(3) by (simp add: get_def o_def)
  also have "\<dots> = map (\<lambda>k. ?F (data a ! k) (data b ! k)) [0..<prod_list ?s]"
    by (simp only: map_offset_indices)
  also have "\<dots> = map2 ?F (data a) (data b)"
    using la lb by (intro nth_equalityI) simp_all
  finally show ?thesis
    using complex_polarization_same_shape[OF assms(3), of ar] by simp
qed

lemma concat_singletons: "concat (map (\<lambda>x. [f x]) xs) = map f xs"
  by (induction xs) simp_all

lemma indices_two:
  "indices [3, r] = map (\<lambda>b. [0, b]) [0..<r] @ map (\<lambda>b. [1, b]) [0..<r] @ map (\<lambda>b. [2, b]) [0..<r]"
proof -
  have "product_lists [[0..<r]] = map (\<lambda>b. [b]) [0..<r]"
    using concat_singletons[of "\<lambda>b. [b]" "[0..<r]"] by (simp add: o_def)
  then show ?thesis by (simp add: indices_def upt_3 o_def)
qed

lemma inverse_order_swap: "inverse_order [1, 0] = [1, 0]"
  by code_simp

lemma column_of_rows:
  assumes "\<forall>row \<in> set rows. length row = 3" "a < 3"
  shows "map (\<lambda>b. get \<lparr>shape = [length rows, 3], data = concat rows\<rparr> [b, a]) [0..<length rows]
           = map (\<lambda>row. row ! a) rows"
proof (rule nth_equalityI)
  show "length (map (\<lambda>b. get \<lparr>shape = [length rows, 3], data = concat rows\<rparr> [b, a]) [0..<length rows])
          = length (map (\<lambda>row. row ! a) rows)" by simp
next
  fix b assume "b < length (map (\<lambda>b. get \<lparr>shape = [length rows, 3], data = concat rows\<rparr> [b, a]) [0..<length rows])"
  then have b: "b < length rows" by simp
  have "concat rows ! (b * 3 + a) = rows ! b ! a"
    using assms b by (intro nth_concat_blocks) simp_all
  then show "map (\<lambda>b. get \<lparr>shape = [length rows, 3], data = concat rows\<rparr> [b, a]) [0..<length rows] ! b
          = map (\<lambda>row. row ! a) rows ! b"
    using b by (simp add: get_def)
qed

lemma transposed_table:
  assumes "\<forall>row \<in> set rows. length row = 3"
  shows "transpose_nd \<lparr>shape = [length rows, 3], data = concat rows\<rparr> [1, 0]
           = \<lparr>shape = [3, length rows],
              data = map (\<lambda>row. row ! 0) rows @ map (\<lambda>row. row ! 1) rows
                       @ map (\<lambda>row. row ! 2) rows\<rparr>"
proof -
  let ?t = "\<lparr>shape = [length rows, 3], data = concat rows\<rparr>"
  have c: "map (\<lambda>b. get ?t [b, a]) [0..<length rows] = map (\<lambda>row. row ! a) rows" if "a < 3" for a
    using assms that by (rule column_of_rows)
  from c[of 0] c[of 1] c[of 2] inverse_order_swap
  show ?thesis
    by (simp add: transpose_nd_def Let_def indices_two o_def)
qed

lemma read_prediction_three_columns:
  assumes f: "files w filename = Some (TextFile lines)"
    and rows: "rows = filter (\<lambda>r. r \<noteq> []) lines"
    and two: "2 \<le> length rows" and three: "\<forall>r \<in> set rows. length r = 3"
  shows "read_prediction ar nan w filename =
           Inr (\<lparr>shape = [length rows], data = map (\<lambda>r. to_float nan (r ! 0)) rows\<rparr>,
                \<lparr>shape = [length rows],
                  data = map (\<lambda>r. cadd ar (cplx ar (to_float nan (r ! 1)))
                                          (cmul ar (imag_unit ar) (cplx ar (to_float nan (r ! 2)))))
                             rows\<rparr>)"
proof -
  define cells where "cells = map (map (to_float nan)) rows"
  have lc: "length cells = length rows" by (simp add: cells_def)
  have three': "\<forall>r \<in> set cells. length r = 3" using three by (auto simp: cells_def)
  have cc: "map (to_float nan) (concat rows) = concat cells"
    by (simp add: cells_def map_concat)
  have col: "map (\<lambda>r. r ! a) cells = map (\<lambda>r. to_float nan (r ! a)) rows" if "a < 3" for a
    using three that by (simp add: cells_def)
  have ne: "rows \<noteq> []" using two by auto
  then have hd3: "length (hd rows) = 3" using three by simp
  have cons: "\<forall>r \<in> set rows. length r = length (hd rows)" using three hd3 by simp
  let ?raw = "\<lparr>shape = [length rows, length (hd rows)], data = map (to_float nan) (concat rows)\<rparr>"
  have sq: "squeeze ?raw = \<lparr>shape = [length cells, 3], data = concat cells\<rparr>"
    using two hd3 by (simp add: squeeze_def cc lc)
  have "rev [0..<ndim (squeeze ?raw)] = [1, 0]" unfolding sq by code_simp
  then have g: "genfromtxt_unpack nan w filename
          = Inr \<lparr>shape = [3, length cells],
              data = map (\<lambda>row. row ! 0) cells @ map (\<lambda>row. row ! 1) cells
                       @ map (\<lambda>row. row ! 2) cells\<rparr>"
    using genfromtxt_table[OF f rows[symmetric] ne cons, of nan] transposed_table[OF three']
    by (simp add: sq)
  let ?table = "\<lparr>shape = [3, length cells],
              data = map (\<lambda>row. row ! 0) cells @ map (\<lambda>row. row ! 1) cells
                       @ map (\<lambda>row. row ! 2) cells\<rparr>"
  let ?re = "\<lparr>shape = [length cells], data = map (\<lambda>row. row ! 1) cells\<rparr>"
  let ?im = "\<lparr>shape = [length cells], data = map (\<lambda>row. row ! 2) cells\<rparr>"
  have it: "iterate_axis0 ?table
              = Inr [\<lparr>shape = [length cells], data = map (\<lambda>row. row ! 0) cells\<rparr>, ?re, ?im]"
    using iterate_axis0_three[of ?table "[length cells]"] by simp
  have cp: "complex_polarization ar ?re ?im
              = Inr \<lparr>shape = [length cells],
                  data = map (\<lambda>r. cadd ar (cplx ar (r ! 1))
                                          (cmul ar (imag_unit ar) (cplx ar (r ! 2)))) cells\<rparr>"
    using complex_polarization_zip[of ?re ?im ar]
    by (simp add: well_formed_def zip_map_map map_zip_map map_zip_map2 zip_same_conv_map)
  have fr: "map (\<lambda>row. row ! 0) cells = map (\<lambda>r. to_float nan (r ! 0)) rows"
    using col[of 0] by simp
  have th: "map (\<lambda>r. cadd ar (cplx ar (r ! 1)) (cmul ar (imag_unit ar) (cplx ar (r ! 2)))) cells
          = map (\<lambda>r. cadd ar (cplx ar (to_float nan (r ! 1)))
                          (cmul ar (imag_unit ar) (cplx ar (to_float nan (r ! 2))))) rows"
    using three by (simp add: cells_def)
  have "read_prediction ar nan w filename
          = Inr (\<lparr>shape = [length cells], data = map (\<lambda>row. row ! 0) cells\<rparr>,
                 \<lparr>shape = [length cells],
                  data = map (\<lambda>r. cadd ar (cplx ar (r ! 1))
                                          (cmul ar (imag_unit ar) (cplx ar (r ! 2)))) cells\<rparr>)"
    using g it cp by (simp add: read_prediction_def unpack3_three)
  then show ?thesis unfolding fr th lc .
qed

lemma length_concat_uniform:
  "\<forall>r \<in> set rows. length r = k \<Longrightarrow> length (concat rows) = length rows * k"
  by (induction rows) simp_all

lemma list_of_three: "length xs = 3 \<Longrightarrow> \<exists>a b c. xs = [a, b, c]"
  by (auto simp: numeral_3_eq_3 length_Suc_conv)

lemma concat_filter_nonempty: "concat (filter (\<lambda>r. r \<noteq> []) lines) = concat lines"
  by (induction lines) simp_all

text \<open>
  A table of three fields in all, one row of three or three rows of one, is squeezed to
  one axis of length three and loads as a single channel.
\<close>

lemma read_prediction_single_channel:
  assumes f: "files w filename = Some (TextFile lines)"
    and l: "loadable_table lines" and c: "length (concat lines) = 3"
  shows "read_prediction ar nan w filename =
           Inr (\<lparr>shape = [], data = [to_float nan (concat lines ! 0)]\<rparr>,
                \<lparr>shape = [],
                  data = [cadd ar (cplx ar (to_float nan (concat lines ! 1)))
                            (cmul ar (imag_unit ar) (cplx ar (to_float nan (concat lines ! 2))))]\<rparr>)"
proof -
  define rows where "rows = filter (\<lambda>r. r \<noteq> []) lines"
  define k where "k = length (hd rows)"
  have cr: "concat rows = concat lines" unfolding rows_def by (rule concat_filter_nonempty)
  have ne: "rows \<noteq> []" and cons: "\<forall>r \<in> set rows. length r = length (hd rows)"
    and dims: "k = 3 \<or> k = 1 \<and> length rows = 3"
    using l unfolding loadable_table_def Let_def rows_def[symmetric] k_def by blast+
  have consk: "\<forall>r \<in> set rows. length r = k" using cons unfolding k_def .
  have len: "length rows * k = 3"
    using length_concat_uniform[OF consk] c cr by simp
  have "length rows = 1 \<and> k = 3 \<or> length rows = 3 \<and> k = 1"
    using dims len by auto
  then have shape3: "filter (\<lambda>n. n \<noteq> 1) [length rows, k] = [3]" by auto
  from list_of_three[OF c] obtain a b d where abd: "concat lines = [a, b, d]" by blast
  define x0 where "x0 = to_float nan a"
  define x1 where "x1 = to_float nan b"
  define x2 where "x2 = to_float nan d"
  have cells: "map (to_float nan) (concat rows) = [x0, x1, x2]"
    by (simp add: cr abd x0_def x1_def x2_def)
  let ?raw = "\<lparr>shape = [length rows, length (hd rows)], data = map (to_float nan) (concat rows)\<rparr>"
  let ?t = "\<lparr>shape = [3], data = [x0, x1, x2]\<rparr>"
  have sq: "squeeze ?raw = ?t" using shape3 cells by (simp add: squeeze_def k_def)
  have wf: "well_formed ?t" by (simp add: well_formed_def)
  have "rev [0..<ndim ?t] = [0..<ndim ?t]" by (simp add: ndim_def)
  then have tr: "transpose_nd ?t (rev [0..<ndim ?t]) = ?t"
    using transpose_nd_identity[OF wf] by simp
  have "transpose_nd (squeeze ?raw) (rev [0..<ndim (squeeze ?raw)]) = ?t"
    unfolding sq by (rule tr)
  then have g: "genfromtxt_unpack nan w filename = Inr ?t"
    using genfromtxt_table[OF f rows_def[symmetric] ne cons, of nan] by simp
  have it: "iterate_axis0 ?t
              = Inr [\<lparr>shape = [], data = [x0]\<rparr>, \<lparr>shape = [], data = [x1]\<rparr>,
                     \<lparr>shape = [], data = [x2]\<rparr>]"
    using iterate_axis0_three[of ?t "[]"] by simp
  have cp: "complex_polarization ar \<lparr>shape = [], data = [x1]\<rparr> \<lparr>shape = [], data = [x2]\<rparr>
              = Inr \<lparr>shape = [],
                     data = [cadd ar (cplx ar x1) (cmul ar (imag_unit ar) (cplx ar x2))]\<rparr>"
    using complex_polarization_zip[of "\<lparr>shape = [], data = [x1]\<rparr>" "\<lparr>shape = [], data = [x2]\<rparr>" ar]
    by (simp add: well_formed_def)
  have "read_prediction ar nan w filename
          = Inr (\<lparr>shape = [], data = [x0]\<rparr>,
                 \<lparr>shape = [], data = [cadd ar (cplx ar x1) (cmul ar (imag_unit ar) (cplx ar x2))]\<rparr>)"
    using g it cp by (simp add: read_prediction_def unpack3_three)
  then show ?thesis by (simp add: abd x0_def x1_def x2_def)
qed

lemma last_squeezed:
  fixes r c :: nat
  assumes "1 \<le> r" "1 \<le> c"
  shows "(\<exists>rest. rev (filter (\<lambda>n. n \<noteq> 1) [r, c]) = 3 # rest) \<longleftrightarrow> (c = 3 \<or> c = 1 \<and> r = 3)"
  using assms by auto

lemma read_prediction_success_iff:
  "(\<exists>res. read_prediction ar nan w filename = Inr res)
     \<longleftrightarrow> (\<exists>lines. files w filename = Some (TextFile lines) \<and> loadable_table lines)"
proof (cases "files w filename")
  case None
  then show ?thesis by (simp add: read_prediction_def genfromtxt_unpack_def)
next
  case (Some fl)
  show ?thesis
  proof (cases fl)
    case (FitsFile h d)
    with Some show ?thesis by (simp add: read_prediction_def genfromtxt_unpack_def)
  next
    case (FitsHeaderOnly h)
    with Some show ?thesis by (simp add: read_prediction_def genfromtxt_unpack_def)
  next
    case (TextFile lines)
    define rows where "rows = filter (\<lambda>r. r \<noteq> []) lines"
    have f: "files w filename = Some (TextFile lines)" using Some TextFile by simp
    have iff: "(\<exists>res. read_prediction ar nan w filename = Inr res)
                 \<longleftrightarrow> (\<exists>rest. shape table = 3 # rest)"
      if g: "genfromtxt_unpack nan w filename = Inr table" for table
    proof (cases "shape table")
      case Nil
      with read_prediction_of_table[OF g, of ar] show ?thesis by simp
    next
      case (Cons n rest)
      show ?thesis
      proof (cases "n = 3")
        case True
        with read_prediction_of_table[OF g, of ar] Cons show ?thesis by auto
      next
        case False
        with read_prediction_of_table[OF g, of ar] Cons show ?thesis by auto
      qed
    qed
    show ?thesis
    proof (cases "rows = []")
      case True
      then have "genfromtxt_unpack nan w filename = Inr \<lparr>shape = [0], data = []\<rparr>"
        using f by (simp add: genfromtxt_unpack_def rows_def)
      from iff[OF this] show ?thesis using f True by (simp add: loadable_table_def rows_def)
    next
      case False
      note ne = False
      show ?thesis
      proof (cases "\<forall>r \<in> set rows. length r = length (hd rows)")
        case False
        then have "(\<exists>r \<in> set rows. length r \<noteq> length (hd rows)) = True" by blast
        then have "genfromtxt_unpack nan w filename = Inl ValueError"
          unfolding genfromtxt_unpack_def Let_def f stored_file.case option.case rows_def[symmetric]
          using ne by simp
        then have "read_prediction ar nan w filename = Inl ValueError"
          by (simp add: read_prediction_def)
        moreover have "\<not> loadable_table lines"
          unfolding loadable_table_def Let_def rows_def[symmetric] using False by blast
        ultimately show ?thesis using f by simp
      next
        case True
        let ?raw = "\<lparr>shape = [length rows, length (hd rows)],
                    data = map (to_float nan) (concat rows)\<rparr>"
        have g: "genfromtxt_unpack nan w filename
                   = Inr (transpose_nd (squeeze ?raw) (rev [0..<ndim (squeeze ?raw)]))"
          by (rule genfromtxt_table[OF f rows_def[symmetric] ne True])
        have sh: "shape (transpose_nd (squeeze ?raw) (rev [0..<ndim (squeeze ?raw)]))
                    = rev (filter (\<lambda>n. n \<noteq> 1) [length rows, length (hd rows)])"
          unfolding shape_transpose_rev by (simp add: squeeze_def)
        have r1: "1 \<le> length rows" using ne by (cases rows) simp_all
        have "hd rows \<in> set rows" using ne by simp
        then have "hd rows \<noteq> []" unfolding rows_def by simp
        then have c1: "1 \<le> length (hd rows)" by (cases "hd rows") simp_all
        have a: "(\<exists>res. read_prediction ar nan w filename = Inr res)
                \<longleftrightarrow> (length (hd rows) = 3 \<or> length (hd rows) = 1 \<and> length rows = 3)"
          unfolding iff[OF g] sh by (rule last_squeezed[OF r1 c1])
        have b: "loadable_table lines
                \<longleftrightarrow> (length (hd rows) = 3 \<or> length (hd rows) = 1 \<and> length rows = 3)"
          unfolding loadable_table_def Let_def rows_def[symmetric] using ne True by blast
        show ?thesis unfolding a using f b by simp
      qed
    qed
  qed
qed

lemma read_prediction_same_shape:
  assumes "read_prediction ar nan w filename = Inr (frequencies, theta)"
  shows "shape theta = shape frequencies"
proof -
  from assms obtain table where g: "genfromtxt_unpack nan w filename = Inr table"
    by (auto simp: read_prediction_def split: sum.splits)
  show ?thesis
  proof (cases "shape table")
    case Nil
    with read_prediction_of_table[OF g, of ar] assms show ?thesis by simp
  next
    case (Cons n rest)
    show ?thesis
    proof (cases "n = 3")
      case True
      with read_prediction_of_table[OF g, of ar] Cons assms show ?thesis by auto
    next
      case False
      with read_prediction_of_table[OF g, of ar] Cons assms show ?thesis by auto
    qed
  qed
qed

text \<open>
  C8, as the code has it. \<^verbatim>\<open>read_prediction\<close> succeeds exactly on a readable text
  table with at least one line that has fields, whose lines with fields all have the
  same number of fields, that number being three, or one with exactly three such lines;
  on every other source (missing, not a text table, empty, ragged, another number of
  columns) it fails. On success the frequencies and the modulation have the same shape.
  For a table of at least two rows of three fields, the frequencies are the first
  fields of the rows, in order, and the modulation of a row is its second field plus
  \<open>i\<close> times its third; for a loadable table of three fields in all (one row of three,
  or three rows of one), the result is a single channel, whose frequency is the first
  field and whose modulation is the second plus \<open>i\<close> times the third. A field that is
  not a number is not refused: it is read as NaN (\<^verbatim>\<open>to_float\<close>).
\<close>

theorem read_prediction_loads:
  "((\<exists>res. read_prediction ar nan w filename = Inr res)
      \<longleftrightarrow> (\<exists>lines. files w filename = Some (TextFile lines) \<and> loadable_table lines))
   \<and> (read_prediction ar nan w filename = Inr (frequencies, theta)
        \<longrightarrow> shape theta = shape frequencies)
   \<and> (files w filename = Some (TextFile lines)
        \<and> 2 \<le> length (filter (\<lambda>r. r \<noteq> []) lines)
        \<and> (\<forall>r \<in> set (filter (\<lambda>r. r \<noteq> []) lines). length r = 3)
        \<longrightarrow> read_prediction ar nan w filename =
              Inr (\<lparr>shape = [length (filter (\<lambda>r. r \<noteq> []) lines)],
                    data = map (\<lambda>r. to_float nan (r ! 0)) (filter (\<lambda>r. r \<noteq> []) lines)\<rparr>,
                   \<lparr>shape = [length (filter (\<lambda>r. r \<noteq> []) lines)],
                    data = map (\<lambda>r. cadd ar (cplx ar (to_float nan (r ! 1)))
                                            (cmul ar (imag_unit ar) (cplx ar (to_float nan (r ! 2)))))
                               (filter (\<lambda>r. r \<noteq> []) lines)\<rparr>))
   \<and> (files w filename = Some (TextFile lines) \<and> loadable_table lines
        \<and> length (concat lines) = 3
        \<longrightarrow> read_prediction ar nan w filename =
              Inr (\<lparr>shape = [], data = [to_float nan (concat lines ! 0)]\<rparr>,
                   \<lparr>shape = [],
                    data = [cadd ar (cplx ar (to_float nan (concat lines ! 1)))
                              (cmul ar (imag_unit ar)
                                 (cplx ar (to_float nan (concat lines ! 2))))]\<rparr>))"
  using read_prediction_success_iff[of ar nan w filename]
    read_prediction_same_shape[of ar nan w filename frequencies theta]
    read_prediction_three_columns[of w filename lines "filter (\<lambda>r. r \<noteq> []) lines" ar nan]
    read_prediction_single_channel[of w filename lines ar nan]
  by blast

theorem read_prediction_loads_witness:
  "files float_world ''pred2.txt''
       = Some (TextFile [[num 100, num 1, num 0], [num 200, num 0, num 1]])
   \<and> read_prediction extended_arith None float_world ''pred2.txt''
       = Inr (\<lparr>shape = [2], data = [Some 100, Some 200]\<rparr>,
              \<lparr>shape = [2], data = [(Some 1, Some 0), (Some 0, Some 1)]\<rparr>)
   \<and> shape \<lparr>shape = [2], data = [(Some (1::real), Some (0::real)), (Some 0, Some 1)]\<rparr>
       = shape \<lparr>shape = [2], data = [Some (100::real), Some 200]\<rparr>
   \<and> files float_world ''one_row.txt'' = Some (TextFile [[num 100, num 3, num 4]])
   \<and> loadable_table [[num 100, num 3, num 4]]
   \<and> read_prediction extended_arith None float_world ''one_row.txt''
       = Inr (\<lparr>shape = [], data = [Some 100]\<rparr>, \<lparr>shape = [], data = [(Some 3, Some 4)]\<rparr>)"
proof -
  let ?two = "[[num 100, num 1, num 0], [num 200, num 0, num 1]]"
  let ?one = "[[num 100, num 3, num 4]]"
  have f2: "files float_world ''pred2.txt'' = Some (TextFile ?two)" by code_simp
  have f1: "files float_world ''one_row.txt'' = Some (TextFile ?one)" by code_simp
  have two: "2 \<le> length (filter (\<lambda>r. r \<noteq> []) ?two)" by simp
  have three: "\<forall>r \<in> set (filter (\<lambda>r. r \<noteq> []) ?two). length r = 3" by simp
  have l1: "loadable_table ?one" by (simp add: loadable_table_def)
  have c1: "length (concat ?one) = 3" by simp
  from read_prediction_loads[of extended_arith None float_world "''pred2.txt''" _ _ ?two]
    f2 two three
  have "read_prediction extended_arith None float_world ''pred2.txt'' =
              Inr (\<lparr>shape = [length (filter (\<lambda>r. r \<noteq> []) ?two)],
                    data = map (\<lambda>r. to_float None (r ! 0)) (filter (\<lambda>r. r \<noteq> []) ?two)\<rparr>,
                   \<lparr>shape = [length (filter (\<lambda>r. r \<noteq> []) ?two)],
                    data = map (\<lambda>r. cadd extended_arith (cplx extended_arith (to_float None (r ! 1)))
                                 (cmul extended_arith (imag_unit extended_arith)
                                    (cplx extended_arith (to_float None (r ! 2)))))
                               (filter (\<lambda>r. r \<noteq> []) ?two)\<rparr>)"
    by blast
  then have r2: "read_prediction extended_arith None float_world ''pred2.txt''
       = Inr (\<lparr>shape = [2], data = [Some 100, Some 200]\<rparr>,
              \<lparr>shape = [2], data = [(Some 1, Some 0), (Some 0, Some 1)]\<rparr>)"
    by (simp add: extended_arith_def to_float_def num_def lift2_def)
  from read_prediction_loads[of extended_arith None float_world "''pred2.txt''"
         "\<lparr>shape = [2], data = [Some 100, Some 200]\<rparr>"
         "\<lparr>shape = [2], data = [(Some 1, Some 0), (Some 0, Some 1)]\<rparr>"] r2
  have s2: "shape \<lparr>shape = [2], data = [(Some (1::real), Some (0::real)), (Some 0, Some 1)]\<rparr>
       = shape \<lparr>shape = [2], data = [Some (100::real), Some 200]\<rparr>"
    by blast
  from read_prediction_loads[of extended_arith None float_world "''one_row.txt''" _ _ ?one]
    f1 l1 c1
  have "read_prediction extended_arith None float_world ''one_row.txt'' =
              Inr (\<lparr>shape = [], data = [to_float None (concat ?one ! 0)]\<rparr>,
                   \<lparr>shape = [],
                    data = [cadd extended_arith (cplx extended_arith (to_float None (concat ?one ! 1)))
                              (cmul extended_arith (imag_unit extended_arith)
                                 (cplx extended_arith (to_float None (concat ?one ! 2))))]\<rparr>)"
    by blast
  then have r1: "read_prediction extended_arith None float_world ''one_row.txt''
       = Inr (\<lparr>shape = [], data = [Some 100]\<rparr>, \<lparr>shape = [], data = [(Some 3, Some 4)]\<rparr>)"
    by (simp add: extended_arith_def to_float_def num_def lift2_def)
  from f2 r2 s2 f1 l1 r1 show ?thesis by blast
qed

text \<open>
  The claim as the specification words it fails twice. On a file of three lines with one
  field each, no line has three fields, and the call returns the three numbers as one
  channel. On a file of two lines of three fields whose first field is not a number,
  the call returns too, with NaN as the first frequency.
\<close>

theorem read_prediction_counterexample:
  "files float_world ''one_column.txt'' = Some (TextFile [[num 1], [num 2], [num 3]])
   \<and> length ([[num 1], [num 2], [num 3]] ! 0) \<noteq> 3
   \<and> read_prediction extended_arith None float_world ''one_column.txt''
       = Inr (\<lparr>shape = [], data = [Some 1]\<rparr>, \<lparr>shape = [], data = [(Some 2, Some 3)]\<rparr>)
   \<and> files float_world ''not_numeric.txt''
       = Some (TextFile [[None, num 1, num 2], [num 3, num 4, num 5]])
   \<and> read_prediction extended_arith None float_world ''not_numeric.txt''
       = Inr (\<lparr>shape = [2], data = [None, Some 3]\<rparr>,
              \<lparr>shape = [2], data = [(Some 1, Some 2), (Some 4, Some 5)]\<rparr>)"
  by code_simp

section \<open>The orchestrator\<close>











end
